theory Spec2Isabelle
  imports Main "HOL-Library.Word"
begin

section \<open>Wire data and external collaborators\<close>

text \<open>
  The file \<^verbatim>\<open>src/client.go\<close> holds two copies of the client: lines 1--250 (called the
  first copy here) and lines 251--496 (the second copy). Both are embedded where they
  differ; the connection model of the later sections follows the first copy.
\<close>

type_synonym bytes = string

text \<open>Go's \<^verbatim>\<open>error\<close> values; \<^verbatim>\<open>errors.New(msg)\<close> is \<open>Error msg\<close>.\<close>

datatype error = Error string

text \<open>
  Modelled from the spec: the package \<^verbatim>\<open>protocol\<close> (type \<^verbatim>\<open>Message\<close>, the constants
  \<^verbatim>\<open>Req\<close> and \<^verbatim>\<open>Resp\<close>) is not part of the sources. The envelope has a correlation id, a
  type that is Request or Response, an action and an opaque payload.
\<close>

datatype msg_type = Req | Resp

record Message =
  Id_m :: string
  Type :: msg_type
  Action :: string
  Data :: bytes

text \<open>
  A handler \<^verbatim>\<open>h(c, message)\<close> returns a pointer to the response payload, \<^verbatim>\<open>nil\<close> on failure.
\<close>

type_synonym Handler = "Message \<Rightarrow> bytes option"

text \<open>
  The functions the client calls but does not define are parameters of the model:
  \<^verbatim>\<open>protocol.ToMessage\<close> (an error, a \<^verbatim>\<open>nil\<close> message, or a message),
  \<^verbatim>\<open>Message.ToBytes\<close> and the registry lookup \<^verbatim>\<open>w.getHandler\<close> (\<^verbatim>\<open>nil\<close> when the action
  has no handler).
\<close>

record externals =
  ToMessage :: "bytes \<Rightarrow> error + Message option"
  ToBytes :: "Message \<Rightarrow> error + bytes"
  getHandler :: "string \<Rightarrow> Handler option"

section \<open>The read worker, one iteration\<close>

text \<open>
  Where the read worker stands. \<open>RRead\<close>: at \<^verbatim>\<open>c.conn.ReadMessage()\<close>, the top of the loop.
  \<open>RRaise\<close>: at \<^verbatim>\<open>c.closeCh <- true\<close>, after which the function leaves the loop
  (\<^verbatim>\<open>return\<close> or \<^verbatim>\<open>break\<close>) and runs its deferred call. \<open>RDeliver ch m\<close>: at
  \<^verbatim>\<open>callCh <- message\<close>, with the channel loaded from the table, followed by
  \<^verbatim>\<open>continue\<close>. \<open>RSendOut b\<close>: at \<^verbatim>\<open>c.messageOut <- msgOut\<close>, the last statement of the
  loop body. \<open>RReturned\<close>: the function has returned. \<open>RPing a\<close>: still inside
  \<^verbatim>\<open>ReadMessage\<close>, where the websocket library has received a ping with the data \<open>a\<close> and
  has called the ping handler, which is at its send \<^verbatim>\<open>cli.pingCh <- []byte(appData)\<close>
  (line 55); the library calls the handler on the goroutine that reads.
\<close>

datatype reader_pc =
  RRead
| RRaise
| RDeliver nat Message
| RSendOut bytes
| RReturned
| RPing bytes

text \<open>
  First copy, lines 79--136: from the result of \<^verbatim>\<open>ReadMessage\<close> to the next blocking
  statement. The table \<open>pendingCalls\<close> maps a correlation id to a response channel
  (channels are numbered).
\<close>

definition readLoop_iter ::
  "externals \<Rightarrow> (string \<rightharpoonup> nat) \<Rightarrow> error + bytes \<Rightarrow> reader_pc" where
  "readLoop_iter x pendingCalls r =
    (case r of
       Inl err \<Rightarrow> RRaise
     | Inr msg \<Rightarrow>
        (case ToMessage x msg of
           Inl err \<Rightarrow> RRaise
         | Inr None \<Rightarrow> RRead
         | Inr (Some message) \<Rightarrow>
            if Type message = Resp then
              (case pendingCalls (Id_m message) of
                 Some callCh \<Rightarrow> RDeliver callCh message
               | None \<Rightarrow> RRead)
            else
              (case getHandler x (Action message) of
                 None \<Rightarrow> RRead
               | Some h \<Rightarrow>
                  (case h message of
                     None \<Rightarrow> RRaise
                   | Some respData \<Rightarrow>
                      (let resp = \<lparr>Id_m = Id_m message, Type = Resp,
                                   Action = Action message, Data = respData\<rparr>
                       in case ToBytes x resp of
                            Inl err \<Rightarrow> RRaise
                          | Inr msgOut \<Rightarrow> RSendOut msgOut)))))"

text \<open>
  Second copy, lines 327--386. It differs in three places: a \<^verbatim>\<open>nil\<close> message and a
  missing handler raise the close signal, and the response's id is
  \<^verbatim>\<open>uuid.NewString()\<close>, here the argument \<open>uuid\<close>.
\<close>

definition readLoop_iter2 ::
  "externals \<Rightarrow> string \<Rightarrow> (string \<rightharpoonup> nat) \<Rightarrow> error + bytes \<Rightarrow> reader_pc" where
  "readLoop_iter2 x uuid pendingCalls r =
    (case r of
       Inl err \<Rightarrow> RRaise
     | Inr msg \<Rightarrow>
        (case ToMessage x msg of
           Inl err \<Rightarrow> RRaise
         | Inr None \<Rightarrow> RRaise
         | Inr (Some message) \<Rightarrow>
            if Type message = Resp then
              (case pendingCalls (Id_m message) of
                 Some callCh \<Rightarrow> RDeliver callCh message
               | None \<Rightarrow> RRead)
            else
              (case getHandler x (Action message) of
                 None \<Rightarrow> RRaise
               | Some h \<Rightarrow>
                  (case h message of
                     None \<Rightarrow> RRaise
                   | Some respData \<Rightarrow>
                      (let resp = \<lparr>Id_m = uuid, Type = Resp,
                                   Action = Action message, Data = respData\<rparr>
                       in case ToBytes x resp of
                            Inl err \<Rightarrow> RRaise
                          | Inr msgOut \<Rightarrow> RSendOut msgOut)))))"

section \<open>The connection: shared state, workers and callers\<close>

text \<open>
  The transport's write side. The constants are those of the websocket library:
  message types and the close code 1000; \<^verbatim>\<open>FormatCloseMessage\<close> puts the code in two
  bytes, high byte first, before the text.
\<close>

datatype frame_type = TextMessage | PongMessage | CloseMessage

definition CloseNormalClosure :: nat where
  "CloseNormalClosure = 1000"

definition FormatCloseMessage :: "nat \<Rightarrow> string \<Rightarrow> bytes" where
  "FormatCloseMessage closeCode text =
     [char_of (closeCode div 256), char_of (closeCode mod 256)] @ text"

datatype conn_op =
  SetWriteDeadline
| NextWriter frame_type
| Write bytes
| Close
| WriteMessage frame_type bytes
| NetConnClose

text \<open>
  Every operation on the write side of \<^verbatim>\<open>c.conn\<close> is recorded with the code that issued it
  and with whether it returned without error.
\<close>

datatype issuer = ReadWorker | WriteWorker | PingHandler | Caller nat

type_synonym conn_event = "issuer \<times> conn_op \<times> bool"

text \<open>
  Where a \<^verbatim>\<open>Call\<close> stands; each constructor names the next statement that touches shared
  state and carries the local variables it needs. \<open>CLoad\<close>: at \<^verbatim>\<open>c.pendingCnt.Load()\<close>
  (line 205). \<open>CStore raw\<close>: at \<^verbatim>\<open>c.pendingCalls.Store\<close> (line 223). \<open>CAdd raw\<close>: at
  \<^verbatim>\<open>c.pendingCnt.Add(1)\<close> (line 224). \<open>CSend b\<close>: at \<^verbatim>\<open>c.messageOut <- msgBytes\<close>
  (line 238). \<open>CWait\<close>: at the \<^verbatim>\<open>select\<close> of line 239. \<open>CDelete r\<close>: the result is fixed
  and the deferred function is at \<^verbatim>\<open>c.pendingCalls.Delete\<close> (line 226). \<open>CDec r\<close>: at
  \<^verbatim>\<open>c.pendingCnt.Add(-1)\<close> (line 227). \<open>CReturned r\<close>: \<^verbatim>\<open>Call\<close> has returned \<open>r\<close>.
\<close>

datatype call_pc =
  CLoad
| CStore bytes
| CAdd bytes
| CSend bytes
| CWait
| CDelete "error + Message"
| CDec "error + Message"
| CReturned "error + Message"

text \<open>
  One invocation of \<^verbatim>\<open>Call\<close>: its argument \<open>action\<close>, the result of
  \<^verbatim>\<open>json.Marshal(data)\<close>, the string \<^verbatim>\<open>uuid.NewString()\<close> gives it, where it stands, and
  its channel \<^verbatim>\<open>respCh\<close> of capacity one.
\<close>

record call =
  action :: string
  marshal :: "error + bytes"
  uuid :: string
  pc :: call_pc
  respCh :: "Message list"

datatype writer_pc = WSelect | WRaise | WReturned

text \<open>
  The client with its two workers and its callers. \<open>closeCh\<close> is the buffer of the channel
  of capacity one; \<open>messageOut\<close> and \<open>pingCh\<close> have no buffer, so a send on them is one
  step with the receive. \<open>pendingCalls\<close> maps an id to the number of the caller whose
  channel is stored under it. \<open>conn\<close> is the record of the transport's write side and
  \<open>removed\<close> the arguments of the calls \<^verbatim>\<open>s.Remove(c.id)\<close> so far.
\<close>

record Client =
  id_c :: string
  closeCh :: "bool list"
  pendingCalls :: "string \<rightharpoonup> nat"
  pendingCnt :: "32 word"
  maxPendingCalls :: int
  reader :: reader_pc
  writer :: writer_pc
  calls :: "call list"
  conn :: "conn_event list"
  removed :: "string list"

definition new_call :: "string \<times> (error + bytes) \<times> string \<Rightarrow> call" where
  "new_call inp =
     \<lparr>action = fst inp, marshal = fst (snd inp), uuid = snd (snd inp), pc = CLoad, respCh = []\<rparr>"

text \<open>
  \<^verbatim>\<open>makeClient\<close> followed by \<^verbatim>\<open>run\<close>: empty channels and table, both workers started, and
  the invocations of \<^verbatim>\<open>Call\<close> that are going to be made, none of them begun.
\<close>

definition makeClient ::
  "string \<Rightarrow> int \<Rightarrow> (string \<times> (error + bytes) \<times> string) list \<Rightarrow> Client" where
  "makeClient ident maxPendingCall inputs =
     \<lparr>id_c = ident, closeCh = [], pendingCalls = Map.empty, pendingCnt = 0,
      maxPendingCalls = maxPendingCall, reader = RRead, writer = WSelect,
      calls = map new_call inputs, conn = [], removed = []\<rparr>"

text \<open>
  The steps of the connection. Each is one statement on shared state (a channel
  operation, an operation of the table or of the counter, a transport call) together with
  the local computation up to the next such statement. The transport's answers are part
  of the event, and so is the moment a timer fires: time is not measured. A handler is
  taken to be a function of the message it is given. The channel \<^verbatim>\<open>messageIn\<close> is never
  used and has no counterpart here.

  \<open>Read r\<close>: \<^verbatim>\<open>ReadMessage\<close> returns \<open>r\<close> to the read worker. \<open>ReaderSend\<close>: the read worker's
  pending send on \<open>closeCh\<close> or on a caller's channel completes. \<open>WriterOut s r\<close>: the
  write worker's \<^verbatim>\<open>select\<close> receives from \<open>messageOut\<close> the message of the sender \<open>s\<close>, and
  the transport answers its writes with \<open>r\<close>. \<open>Ping a\<close>: a ping with the data \<open>a\<close> arrives
  while the read worker is in \<^verbatim>\<open>ReadMessage\<close>, and the ping handler is called.
  \<open>WriterPing ok\<close>: the \<^verbatim>\<open>select\<close> receives what the waiting handler sends on \<open>pingCh\<close>;
  the handler goes on and returns into \<^verbatim>\<open>ReadMessage\<close>, and the write worker's pong
  write succeeds or not. \<open>WriterClose ok\<close>: the \<^verbatim>\<open>select\<close>
  receives from \<open>closeCh\<close>, and the write of the close frame succeeds or not.
  \<open>WriterSend\<close>: the write worker's pending send on \<open>closeCh\<close> completes. \<open>CallStep i\<close>:
  caller \<open>i\<close> executes its next statement. \<open>Timeout i\<close>: the timer of caller \<open>i\<close> fires.
\<close>

datatype sender = FromReadLoop | FromCall nat

datatype write_result = NextWriterFails | WriteFails | CloseFails | WriteOk

datatype event =
  Read "error + bytes"
| ReaderSend
| WriterOut sender write_result
| Ping bytes
| WriterPing bool
| WriterClose bool
| WriterSend
| CallStep nat
| Timeout nat

subsection \<open>\<^verbatim>\<open>readLoop\<close>, lines 71--140\<close>

text \<open>
  \<open>Read r\<close>: \<^verbatim>\<open>ReadMessage\<close> returns \<open>r\<close>. \<open>ReaderSend\<close>: the pending send completes, which
  needs room in the channel's buffer; after the send on \<open>closeCh\<close> the function returns
  and its deferred \<^verbatim>\<open>s.Remove(c.id)\<close> runs. \<open>Ping a\<close>: inside \<^verbatim>\<open>ReadMessage\<close> the ping
  handler is called and stands at its send on \<open>pingCh\<close>.
\<close>

fun readLoop_step :: "externals \<Rightarrow> event \<Rightarrow> Client \<Rightarrow> Client option" where
  "readLoop_step x (Read r) c =
     (if reader c = RRead
      then Some (c\<lparr>reader := readLoop_iter x (pendingCalls c) r\<rparr>)
      else None)"
| "readLoop_step x ReaderSend c =
     (case reader c of
        RRaise \<Rightarrow>
          if length (closeCh c) < 1
          then Some (c\<lparr>closeCh := closeCh c @ [True], reader := RReturned,
                       removed := removed c @ [id_c c]\<rparr>)
          else None
      | RDeliver callCh message \<Rightarrow>
          if callCh < length (calls c) \<and> length (respCh (calls c ! callCh)) < 1
          then Some (c\<lparr>calls := (calls c)[callCh := (calls c ! callCh)
                                   \<lparr>respCh := respCh (calls c ! callCh) @ [message]\<rparr>],
                       reader := RRead\<rparr>)
          else None
      | _ \<Rightarrow> None)"
| "readLoop_step x (Ping appData) c =
     (if reader c = RRead then Some (c\<lparr>reader := RPing appData\<rparr>) else None)"
| "readLoop_step x _ c = None"

text \<open>
  The second copy of \<^verbatim>\<open>readLoop\<close> (lines 322--390) differs from the first inside the loop
  body only: its sends on \<open>closeCh\<close> and on a caller's channel, its deferred
  \<^verbatim>\<open>s.Remove(c.id)\<close> (line 324) and the send of its ping handler (line 306) are the
  statements of the first copy. The string \<open>u\<close> is what \<^verbatim>\<open>uuid.NewString()\<close> returns.
\<close>

fun readLoop_step2 :: "externals \<Rightarrow> string \<Rightarrow> event \<Rightarrow> Client \<Rightarrow> Client option" where
  "readLoop_step2 x u (Read r) c =
     (if reader c = RRead
      then Some (c\<lparr>reader := readLoop_iter2 x u (pendingCalls c) r\<rparr>)
      else None)"
| "readLoop_step2 x u e c = readLoop_step x e c"

subsection \<open>The ping handler, lines 54--57\<close>

text \<open>
  The handler sends the ping's data on \<open>pingCh\<close> and then sets the write deadline: the
  value sent, and the transport operations the handler itself performs. The channel has
  no buffer: the handler, and with it the read worker, waits until the write worker
  receives.
\<close>

definition pingHandler :: "bytes \<Rightarrow> bytes \<times> conn_event list" where
  "pingHandler appData = (appData, [(PingHandler, SetWriteDeadline, True)])"

subsection \<open>\<^verbatim>\<open>writeLoop\<close>, lines 142--201\<close>

text \<open>The three transport calls of lines 156--175, up to the first that fails.\<close>

definition write_text :: "bytes \<Rightarrow> write_result \<Rightarrow> conn_event list" where
  "write_text msg r =
     (case r of
        NextWriterFails \<Rightarrow> [(WriteWorker, NextWriter TextMessage, False)]
      | WriteFails \<Rightarrow> [(WriteWorker, NextWriter TextMessage, True), (WriteWorker, Write msg, False)]
      | CloseFails \<Rightarrow> [(WriteWorker, NextWriter TextMessage, True), (WriteWorker, Write msg, True),
                       (WriteWorker, Close, False)]
      | WriteOk \<Rightarrow> [(WriteWorker, NextWriter TextMessage, True), (WriteWorker, Write msg, True),
                    (WriteWorker, Close, True)])"

text \<open>
  The receive \<^verbatim>\<open><-c.messageOut\<close>: it takes the message of a sender that stands at its
  send, and the sender goes on (the read worker to the top of its loop, a caller to its
  \<^verbatim>\<open>select\<close>). Nothing in the file closes \<open>messageOut\<close>, so the receive always has a value.
\<close>

fun take_out :: "sender \<Rightarrow> Client \<Rightarrow> (bytes \<times> Client) option" where
  "take_out FromReadLoop c =
     (case reader c of
        RSendOut b \<Rightarrow> Some (b, c\<lparr>reader := RRead\<rparr>)
      | _ \<Rightarrow> None)"
| "take_out (FromCall i) c =
     (if i < length (calls c)
      then (case pc (calls c ! i) of
              CSend b \<Rightarrow> Some (b, c\<lparr>calls := (calls c)[i := (calls c ! i)\<lparr>pc := CWait\<rparr>]\<rparr>)
            | _ \<Rightarrow> None)
      else None)"

text \<open>
  One round of the \<^verbatim>\<open>select\<close>, or the send \<^verbatim>\<open>c.closeCh <- true\<close> that precedes every
  \<^verbatim>\<open>return\<close>. In the close case the \<^verbatim>\<open>break\<close> statements of lines 193 and 196 leave the
  \<^verbatim>\<open>select\<close>, not the \<^verbatim>\<open>for\<close>: the worker is back at the \<^verbatim>\<open>select\<close>.
\<close>

fun writeLoop_step :: "event \<Rightarrow> Client \<Rightarrow> Client option" where
  "writeLoop_step (WriterOut src r) c =
     (if writer c = WSelect
      then (case take_out src c of
              None \<Rightarrow> None
            | Some (msg, c') \<Rightarrow>
                Some (c'\<lparr>conn := conn c' @ write_text msg r,
                         writer := (if r = WriteOk then WSelect else WRaise)\<rparr>))
      else None)"
| "writeLoop_step (WriterPing ok) c =
     (if writer c = WSelect
      then (case reader c of
              RPing appData \<Rightarrow>
                Some (c\<lparr>reader := RRead,
                        conn := conn c @ snd (pingHandler appData)
                                  @ [(WriteWorker, WriteMessage PongMessage [], ok)],
                        writer := (if ok then WSelect else WRaise)\<rparr>)
            | _ \<Rightarrow> None)
      else None)"
| "writeLoop_step (WriterClose ok) c =
     (if writer c = WSelect
      then (case closeCh c of
              [] \<Rightarrow> None
            | v # rest \<Rightarrow>
                Some (c\<lparr>closeCh := rest,
                        conn := conn c
                          @ [(WriteWorker, WriteMessage CloseMessage
                                (FormatCloseMessage CloseNormalClosure ''''), ok)]
                          @ (if ok then [] else [(WriteWorker, NetConnClose, True)]),
                        writer := WSelect\<rparr>))
      else None)"
| "writeLoop_step WriterSend c =
     (if writer c = WRaise \<and> length (closeCh c) < 1
      then Some (c\<lparr>closeCh := closeCh c @ [True], writer := WReturned,
                   removed := removed c @ [id_c c]\<rparr>)
      else None)"
| "writeLoop_step _ c = None"

subsection \<open>\<^verbatim>\<open>Call\<close>, lines 203--250\<close>

definition int32 :: "int \<Rightarrow> 32 word" where
  "int32 n = word_of_int n"

definition set_pc :: "nat \<Rightarrow> call_pc \<Rightarrow> Client \<Rightarrow> Client" where
  "set_pc i p c = c\<lparr>calls := (calls c)[i := (calls c ! i)\<lparr>pc := p\<rparr>]\<rparr>"

text \<open>The next step of caller \<open>i\<close>; there is none while it waits in a send or a receive.\<close>

definition Call_step :: "externals \<Rightarrow> nat \<Rightarrow> Client \<Rightarrow> Client option" where
  "Call_step x i c =
     (if i < length (calls c) then
        (case pc (calls c ! i) of
           CLoad \<Rightarrow>
             if sint (int32 (maxPendingCalls c)) \<le> sint (pendingCnt c)
             then Some (set_pc i (CReturned (Inl (Error ''max pending calls exceeded''))) c)
             else (case marshal (calls c ! i) of
                     Inl err \<Rightarrow> Some (set_pc i (CReturned (Inl err)) c)
                   | Inr raw \<Rightarrow> Some (set_pc i (CStore raw) c))
         | CStore raw \<Rightarrow>
             Some (set_pc i (CAdd raw)
                    (c\<lparr>pendingCalls := (pendingCalls c)(uuid (calls c ! i) \<mapsto> i)\<rparr>))
         | CAdd raw \<Rightarrow>
             (let req = \<lparr>Id_m = uuid (calls c ! i), Type = Req,
                         Action = action (calls c ! i), Data = raw\<rparr>;
                  c' = c\<lparr>pendingCnt := pendingCnt c + 1\<rparr>
              in case ToBytes x req of
                   Inl err \<Rightarrow> Some (set_pc i (CDelete (Inl err)) c')
                 | Inr msgBytes \<Rightarrow> Some (set_pc i (CSend msgBytes) c'))
         | CSend msgBytes \<Rightarrow> None
         | CWait \<Rightarrow>
             (case respCh (calls c ! i) of
                [] \<Rightarrow> None
              | resp # rest \<Rightarrow>
                  Some (c\<lparr>calls := (calls c)[i := (calls c ! i)
                                      \<lparr>pc := CDelete (Inr resp), respCh := rest\<rparr>]\<rparr>))
         | CDelete r \<Rightarrow>
             Some (set_pc i (CDec r)
                    (c\<lparr>pendingCalls := (pendingCalls c)(uuid (calls c ! i) := None)\<rparr>))
         | CDec r \<Rightarrow>
             Some (set_pc i (CReturned r) (c\<lparr>pendingCnt := pendingCnt c - 1\<rparr>))
         | CReturned r \<Rightarrow> None)
      else None)"

text \<open>The timer of line 245 fires while caller \<open>i\<close> waits in its \<^verbatim>\<open>select\<close>.\<close>

definition Call_timeout :: "nat \<Rightarrow> Client \<Rightarrow> Client option" where
  "Call_timeout i c =
     (if i < length (calls c) \<and> pc (calls c ! i) = CWait
      then Some (set_pc i (CDelete (Inl (Error ''timeout''))) c)
      else None)"

subsection \<open>Runs\<close>

fun step :: "externals \<Rightarrow> event \<Rightarrow> Client \<Rightarrow> Client option" where
  "step x (Read r) c = readLoop_step x (Read r) c"
| "step x ReaderSend c = readLoop_step x ReaderSend c"
| "step x (Ping a) c = readLoop_step x (Ping a) c"
| "step x (CallStep i) c = Call_step x i c"
| "step x (Timeout i) c = Call_timeout i c"
| "step x e c = writeLoop_step e c"

text \<open>A run follows a schedule of events; it is \<open>None\<close> when an event cannot happen.\<close>

fun run :: "externals \<Rightarrow> event list \<Rightarrow> Client \<Rightarrow> Client option" where
  "run x [] c = Some c"
| "run x (e # es) c = (case step x e c of None \<Rightarrow> None | Some c' \<Rightarrow> run x es c')"

subsection \<open>A concrete codec and registry\<close>

text \<open>
  A small instance of the external functions, used to run the model on concrete frames:
  five frames decode, everything else is malformed; encoding fails for one action; one
  action has a handler, which echoes the payload and fails on an empty one.
\<close>

definition sample_ToMessage :: "bytes \<Rightarrow> error + Message option" where
  "sample_ToMessage b =
     (if b = ''null'' then Inr None
      else if b = ''resp-A'' then
        Inr (Some \<lparr>Id_m = ''id-A'', Type = Resp, Action = ''A'', Data = ''a''\<rparr>)
      else if b = ''resp-B'' then
        Inr (Some \<lparr>Id_m = ''id-B'', Type = Resp, Action = ''B'', Data = ''b''\<rparr>)
      else if b = ''req-echo'' then
        Inr (Some \<lparr>Id_m = ''r-1'', Type = Req, Action = ''echo'', Data = ''x''\<rparr>)
      else if b = ''req-unknown'' then
        Inr (Some \<lparr>Id_m = ''r-2'', Type = Req, Action = ''unknown'', Data = ''y''\<rparr>)
      else Inl (Error ''malformed''))"

definition sample_ToBytes :: "Message \<Rightarrow> error + bytes" where
  "sample_ToBytes m =
     (if Action m = ''unencodable'' then Inl (Error ''encode'')
      else Inr (Id_m m @ ''|'' @ (case Type m of Req \<Rightarrow> ''request'' | Resp \<Rightarrow> ''response'')
                @ ''|'' @ Action m @ ''|'' @ Data m))"

definition sample_getHandler :: "string \<Rightarrow> Handler option" where
  "sample_getHandler a =
     (if a = ''echo'' then Some (\<lambda>m. if Data m = [] then None else Some (Data m)) else None)"

definition sample :: externals where
  "sample = \<lparr>ToMessage = sample_ToMessage, ToBytes = sample_ToBytes,
             getHandler = sample_getHandler\<rparr>"

section \<open>Invariants of the connection\<close>

text \<open>
  \<open>counted p\<close>: a caller at \<open>p\<close> has executed \<^verbatim>\<open>c.pendingCnt.Add(1)\<close> and not yet
  \<^verbatim>\<open>c.pendingCnt.Add(-1)\<close>. \<open>registered p\<close>: it has executed \<^verbatim>\<open>c.pendingCalls.Store\<close> and
  not yet \<^verbatim>\<open>c.pendingCalls.Delete\<close>.
\<close>

fun counted :: "call_pc \<Rightarrow> bool" where
  "counted (CSend b) = True"
| "counted CWait = True"
| "counted (CDelete r) = True"
| "counted (CDec r) = True"
| "counted _ = False"

fun registered :: "call_pc \<Rightarrow> bool" where
  "registered (CAdd raw) = True"
| "registered (CSend b) = True"
| "registered CWait = True"
| "registered (CDelete r) = True"
| "registered _ = False"

text \<open>Every entry of the table is the channel of a caller with that id, stored and not yet deleted.\<close>

definition table_inv :: "Client \<Rightarrow> bool" where
  "table_inv c \<longleftrightarrow>
     (\<forall>k i. pendingCalls c k = Some i \<longrightarrow>
        i < length (calls c) \<and> uuid (calls c ! i) = k \<and> registered (pc (calls c ! i)))"

text \<open>Conversely, a caller that has stored its channel and not yet deleted it is in the table.\<close>

definition reg_inv :: "Client \<Rightarrow> bool" where
  "reg_inv c \<longleftrightarrow>
     (\<forall>i<length (calls c). registered (pc (calls c ! i)) \<longrightarrow>
        pendingCalls c (uuid (calls c ! i)) = Some i)"


text \<open>The counter is the number of callers between their increment and their decrement.\<close>

definition count_inv :: "Client \<Rightarrow> bool" where
  "count_inv c \<longleftrightarrow> pendingCnt c = of_nat (length (filter (\<lambda>a. counted (pc a)) (calls c)))"

text \<open>
  The response a caller holds once it has received one, and the responses that belong to
  a caller: they carry its id, they are of type Response, and they were decoded from a
  frame the read worker has read.
\<close>

fun received :: "call_pc \<Rightarrow> Message option" where
  "received (CDelete (Inr m)) = Some m"
| "received (CDec (Inr m)) = Some m"
| "received (CReturned (Inr m)) = Some m"
| "received _ = None"

definition answers :: "externals \<Rightarrow> event list \<Rightarrow> call \<Rightarrow> Message \<Rightarrow> bool" where
  "answers x es a m \<longleftrightarrow>
     Id_m m = uuid a \<and> Type m = Resp \<and>
     (\<exists>msg. Read (Inr msg) \<in> set es \<and> ToMessage x msg = Inr (Some m))"

definition call_ok :: "externals \<Rightarrow> event list \<Rightarrow> call \<Rightarrow> bool" where
  "call_ok x es a \<longleftrightarrow>
     (\<forall>m \<in> set (respCh a). answers x es a m) \<and>
     (\<forall>m. received (pc a) = Some m \<longrightarrow> answers x es a m)"

definition corr_inv :: "externals \<Rightarrow> event list \<Rightarrow> Client \<Rightarrow> bool" where
  "corr_inv x es c \<longleftrightarrow>
     (\<forall>i m. reader c = RDeliver i m \<longrightarrow> i < length (calls c) \<and> answers x es (calls c ! i) m) \<and>
     (\<forall>a \<in> set (calls c). call_ok x es a)"


text \<open>
  Counting: the frames read that decode to a response, and the responses that are on
  their way to a caller or held by one. The workers that have returned, each of which has
  run its deferred \<^verbatim>\<open>s.Remove(c.id)\<close>. The pong writes in the record of the transport
  and those the transport accepted; the pings that arrive, the hand-overs to the write
  worker, and the ping whose handler still waits at its send.
\<close>

fun resp_read :: "externals \<Rightarrow> event \<Rightarrow> bool" where
  "resp_read x (Read (Inr msg)) =
     (case ToMessage x msg of Inr (Some m) \<Rightarrow> Type m = Resp | _ \<Rightarrow> False)"
| "resp_read x _ = False"

definition holding :: "call \<Rightarrow> nat" where
  "holding a = length (respCh a) + (if received (pc a) = None then 0 else 1)"

definition delivering :: "reader_pc \<Rightarrow> nat" where
  "delivering p = (case p of RDeliver i m \<Rightarrow> 1 | _ \<Rightarrow> 0)"

definition in_transit :: "Client \<Rightarrow> nat" where
  "in_transit c = delivering (reader c) + sum_list (map holding (calls c))"















section \<open>Basic facts about steps and runs\<close>

lemma run_snoc:
  "run x (es @ [e]) c = (case run x es c of None \<Rightarrow> None | Some c' \<Rightarrow> step x e c')"
  by (induction es arbitrary: c) (auto split: option.splits)

lemma stepE:
  assumes "step x e c = Some c'"
  obtains
    (Read) r where "e = Read r" "reader c = RRead"
      "c' = c\<lparr>reader := readLoop_iter x (pendingCalls c) r\<rparr>"
  | (Raise) "e = ReaderSend" "reader c = RRaise" "closeCh c = []"
      "c' = c\<lparr>closeCh := [True], reader := RReturned, removed := removed c @ [id_c c]\<rparr>"
  | (Deliver) ch m where "e = ReaderSend" "reader c = RDeliver ch m" "ch < length (calls c)"
      "respCh (calls c ! ch) = []"
      "c' = c\<lparr>calls := (calls c)[ch := (calls c ! ch)\<lparr>respCh := [m]\<rparr>], reader := RRead\<rparr>"
  | (OutReader) b r where "e = WriterOut FromReadLoop r" "writer c = WSelect"
      "reader c = RSendOut b"
      "c' = c\<lparr>reader := RRead, conn := conn c @ write_text b r,
                writer := (if r = WriteOk then WSelect else WRaise)\<rparr>"
  | (OutCall) i b r where "e = WriterOut (FromCall i) r" "writer c = WSelect"
      "i < length (calls c)" "pc (calls c ! i) = CSend b"
      "c' = c\<lparr>calls := (calls c)[i := (calls c ! i)\<lparr>pc := CWait\<rparr>],
                conn := conn c @ write_text b r,
                writer := (if r = WriteOk then WSelect else WRaise)\<rparr>"
  | (Pong) a ok where "e = WriterPing ok" "writer c = WSelect" "reader c = RPing a"
      "c' = c\<lparr>reader := RRead,
                conn := conn c @ [(PingHandler, SetWriteDeadline, True),
                                     (WriteWorker, WriteMessage PongMessage [], ok)],
                writer := (if ok then WSelect else WRaise)\<rparr>"
  | (Close) ok v rest where "e = WriterClose ok" "writer c = WSelect" "closeCh c = v # rest"
      "c' = c\<lparr>closeCh := rest,
                conn := conn c @ [(WriteWorker, WriteMessage CloseMessage
                                     (FormatCloseMessage CloseNormalClosure ''''), ok)]
                              @ (if ok then [] else [(WriteWorker, NetConnClose, True)]),
                writer := WSelect\<rparr>"
  | (WSend) "e = WriterSend" "writer c = WRaise" "closeCh c = []"
      "c' = c\<lparr>closeCh := [True], writer := WReturned, removed := removed c @ [id_c c]\<rparr>"
  | (Load) i p where "e = CallStep i" "i < length (calls c)" "pc (calls c ! i) = CLoad"
      "(\<exists>r. p = CReturned (Inl r)) \<or> (\<exists>raw. p = CStore raw)"
      "c' = c\<lparr>calls := (calls c)[i := (calls c ! i)\<lparr>pc := p\<rparr>]\<rparr>"
  | (Store) i raw where "e = CallStep i" "i < length (calls c)" "pc (calls c ! i) = CStore raw"
      "c' = c\<lparr>pendingCalls := (pendingCalls c)(uuid (calls c ! i) \<mapsto> i),
                calls := (calls c)[i := (calls c ! i)\<lparr>pc := CAdd raw\<rparr>]\<rparr>"
  | (Add) i raw p where "e = CallStep i" "i < length (calls c)" "pc (calls c ! i) = CAdd raw"
      "(\<exists>r. p = CDelete (Inl r)) \<or> (\<exists>b. p = CSend b)"
      "c' = c\<lparr>pendingCnt := pendingCnt c + 1,
                calls := (calls c)[i := (calls c ! i)\<lparr>pc := p\<rparr>]\<rparr>"
  | (Recv) i resp rest where "e = CallStep i" "i < length (calls c)" "pc (calls c ! i) = CWait"
      "respCh (calls c ! i) = resp # rest"
      "c' = c\<lparr>calls := (calls c)[i := (calls c ! i)\<lparr>pc := CDelete (Inr resp), respCh := rest\<rparr>]\<rparr>"
  | (Delete) i r where "e = CallStep i" "i < length (calls c)" "pc (calls c ! i) = CDelete r"
      "c' = c\<lparr>pendingCalls := (pendingCalls c)(uuid (calls c ! i) := None),
                calls := (calls c)[i := (calls c ! i)\<lparr>pc := CDec r\<rparr>]\<rparr>"
  | (Dec) i r where "e = CallStep i" "i < length (calls c)" "pc (calls c ! i) = CDec r"
      "c' = c\<lparr>pendingCnt := pendingCnt c - 1,
                calls := (calls c)[i := (calls c ! i)\<lparr>pc := CReturned r\<rparr>]\<rparr>"
  | (Timeout) i where "e = Timeout i" "i < length (calls c)" "pc (calls c ! i) = CWait"
      "c' = c\<lparr>calls := (calls c)[i := (calls c ! i)\<lparr>pc := CDelete (Inl (Error ''timeout''))\<rparr>]\<rparr>"
  | (PingArrives) a where "e = Ping a" "reader c = RRead" "c' = c\<lparr>reader := RPing a\<rparr>"
proof (cases e)
  case (Read r)
  with assms that(1) show ?thesis by (auto split: if_splits)
next
  case ReaderSend
  with assms that(2,3) show ?thesis
    by (cases "reader c") (auto split: if_splits)
next
  case (WriterOut s r)
  with assms that(4,5) show ?thesis
    by (cases s) (auto split: if_splits reader_pc.splits call_pc.splits option.splits)
next
  case (WriterPing ok)
  with assms that(6) show ?thesis
    by (cases "reader c") (auto simp: pingHandler_def split: if_splits)
next
  case (Ping a)
  with assms that(16) show ?thesis by (auto split: if_splits)
next
  case (WriterClose ok)
  with assms that(7) show ?thesis by (auto split: if_splits list.splits)
next
  case WriterSend
  with assms that(8) show ?thesis by (auto split: if_splits)
next
  case (CallStep i)
  with assms have cs: "Call_step x i c = Some c'" by simp
  then have i: "i < length (calls c)" by (auto simp: Call_step_def split: if_splits)
  show ?thesis
  proof (cases "pc (calls c ! i)")
    case CLoad
    with cs i CallStep that(9) show ?thesis
      by (auto simp: Call_step_def set_pc_def split: if_splits sum.splits)
  next
    case (CStore raw)
    with cs i CallStep that(10) show ?thesis
      by (auto simp: Call_step_def set_pc_def)
  next
    case (CAdd raw)
    show ?thesis
    proof (cases "ToBytes x \<lparr>Id_m = uuid (calls c ! i), Type = Req,
                    Action = action (calls c ! i), Data = raw\<rparr>")
      case (Inl err)
      with cs i CAdd have "c' = c\<lparr>pendingCnt := pendingCnt c + 1,
          calls := (calls c)[i := (calls c ! i)\<lparr>pc := CDelete (Inl err)\<rparr>]\<rparr>"
        by (simp add: Call_step_def set_pc_def)
      with i CallStep CAdd show ?thesis by (intro that(11)) auto
    next
      case (Inr b)
      with cs i CAdd have "c' = c\<lparr>pendingCnt := pendingCnt c + 1,
          calls := (calls c)[i := (calls c ! i)\<lparr>pc := CSend b\<rparr>]\<rparr>"
        by (simp add: Call_step_def set_pc_def)
      with i CallStep CAdd show ?thesis by (intro that(11)) auto
    qed
  next
    case (CSend b)
    with cs i show ?thesis by (auto simp: Call_step_def)
  next
    case CWait
    with cs i CallStep that(12) show ?thesis
      by (auto simp: Call_step_def split: list.splits)
  next
    case (CDelete r)
    with cs i CallStep that(13) show ?thesis
      by (auto simp: Call_step_def set_pc_def)
  next
    case (CDec r)
    with cs i CallStep that(14) show ?thesis
      by (auto simp: Call_step_def set_pc_def)
  next
    case (CReturned r)
    with cs i show ?thesis by (auto simp: Call_step_def)
  qed
next
  case (Timeout i)
  with assms that(15) show ?thesis
    by (auto simp: Call_timeout_def set_pc_def split: if_splits)
qed

lemma step_frame:
  assumes "step x e c = Some c'"
  shows "length (calls c') = length (calls c) \<and> id_c c' = id_c c \<and>
         maxPendingCalls c' = maxPendingCalls c \<and>
         (\<forall>j. uuid (calls c' ! j) = uuid (calls c ! j))"
  using assms by (rule stepE) (auto simp: nth_list_update)

subsection \<open>The table\<close>

lemma table_inv_calls:
  assumes "table_inv c" and "pendingCalls c' = pendingCalls c"
    and "length (calls c') = length (calls c)"
    and "\<And>j. uuid (calls c' ! j) = uuid (calls c ! j)"
    and "\<And>j. j < length (calls c) \<Longrightarrow> registered (pc (calls c ! j))
           \<Longrightarrow> registered (pc (calls c' ! j))"
  shows "table_inv c'"
  unfolding table_inv_def
proof (intro allI impI)
  fix k i
  assume "pendingCalls c' k = Some i"
  with assms(2) have "pendingCalls c k = Some i" by simp
  with assms(1) have "i < length (calls c)" "uuid (calls c ! i) = k"
    "registered (pc (calls c ! i))"
    by (auto simp: table_inv_def)
  with assms(3-5)
  show "i < length (calls c') \<and> uuid (calls c' ! i) = k \<and> registered (pc (calls c' ! i))"
    by simp
qed

lemma table_inv_step:
  assumes "step x e c = Some c'" and "table_inv c"
  shows "table_inv c'"
  using assms(1)
proof (cases rule: stepE)
  case (Store i raw)
  with assms(2) show ?thesis by (simp add: table_inv_def nth_list_update)
next
  case (Delete i r)
  with assms(2) show ?thesis by (simp add: table_inv_def nth_list_update) metis
next
  case (Load i p)
  show ?thesis
  proof (rule table_inv_calls [OF assms(2)])
    fix j assume "j < length (calls c)" "registered (pc (calls c ! j))"
    with Load show "registered (pc (calls c' ! j))" by (cases "j = i") auto
  qed (use Load in \<open>simp_all add: nth_list_update\<close>)
next
  case (Dec i r)
  show ?thesis
  proof (rule table_inv_calls [OF assms(2)])
    fix j assume "j < length (calls c)" "registered (pc (calls c ! j))"
    with Dec show "registered (pc (calls c' ! j))" by (cases "j = i") auto
  qed (use Dec in \<open>simp_all add: nth_list_update\<close>)
qed (rule table_inv_calls [OF assms(2)]; auto simp: nth_list_update; fail)+

subsection \<open>The counter\<close>

lemma filter_update_count:
  assumes "i < length xs"
  shows "length (filter P (xs[i := y])) + (if P (xs ! i) then 1 else 0)
       = length (filter P xs) + (if P y then 1 else 0)"
  using assms
proof (induction xs arbitrary: i)
  case Nil
  then show ?case by simp
next
  case (Cons a xs)
  show ?case
  proof (cases i)
    case 0
    then show ?thesis by simp
  next
    case (Suc j)
    with Cons.prems have "j < length xs" by simp
    from Cons.IH [OF this] Suc show ?thesis by simp
  qed
qed

lemma count_inv_same:
  assumes "count_inv c" and "pendingCnt c' = pendingCnt c" and "i < length (calls c)"
    and "calls c' = (calls c)[i := a]" and "counted (pc a) = counted (pc (calls c ! i))"
  shows "count_inv c'"
proof -
  from filter_update_count [OF assms(3), of "\<lambda>a. counted (pc a)" a] assms(5)
  have "length (filter (\<lambda>a. counted (pc a)) ((calls c)[i := a])) =
        length (filter (\<lambda>a. counted (pc a)) (calls c))"
    by (simp split: if_splits)
  with assms(1,2,4) show ?thesis by (simp add: count_inv_def)
qed

lemma count_inv_inc:
  assumes "count_inv c" and "pendingCnt c' = pendingCnt c + 1" and "i < length (calls c)"
    and "calls c' = (calls c)[i := a]" and "counted (pc a)" and "\<not> counted (pc (calls c ! i))"
  shows "count_inv c'"
proof -
  from filter_update_count [OF assms(3), of "\<lambda>a. counted (pc a)" a] assms(5,6)
  have "length (filter (\<lambda>a. counted (pc a)) ((calls c)[i := a])) =
        Suc (length (filter (\<lambda>a. counted (pc a)) (calls c)))"
    by simp
  with assms(1,2,4) show ?thesis by (simp add: count_inv_def)
qed

lemma count_inv_dec:
  assumes "count_inv c" and "pendingCnt c' = pendingCnt c - 1" and "i < length (calls c)"
    and "calls c' = (calls c)[i := a]" and "\<not> counted (pc a)" and "counted (pc (calls c ! i))"
  shows "count_inv c'"
proof -
  from filter_update_count [OF assms(3), of "\<lambda>a. counted (pc a)" a] assms(5,6)
  have "length (filter (\<lambda>a. counted (pc a)) (calls c)) =
        Suc (length (filter (\<lambda>a. counted (pc a)) ((calls c)[i := a])))"
    by simp
  with assms(1,2,4) show ?thesis by (simp add: count_inv_def)
qed

lemma count_inv_step:
  assumes "step x e c = Some c'" and "count_inv c"
  shows "count_inv c'"
  using assms(1)
proof (cases rule: stepE)
  case (Add i raw p)
  then show ?thesis
    by (intro count_inv_inc [OF assms(2), where i = i and a = "(calls c ! i)\<lparr>pc := p\<rparr>"]) auto
next
  case (Dec i r)
  then show ?thesis
    by (intro count_inv_dec [OF assms(2), where i = i and a = "(calls c ! i)\<lparr>pc := CReturned r\<rparr>"])
       auto
next
  case (Load i p)
  then show ?thesis
    by (intro count_inv_same [OF assms(2), where i = i and a = "(calls c ! i)\<lparr>pc := p\<rparr>"]) auto
next
  case (Store i raw)
  then show ?thesis
    by (intro count_inv_same [OF assms(2), where i = i and a = "(calls c ! i)\<lparr>pc := CAdd raw\<rparr>"])
       auto
next
  case (Recv i resp rest)
  then show ?thesis
    by (intro count_inv_same [OF assms(2), where i = i
          and a = "(calls c ! i)\<lparr>pc := CDelete (Inr resp), respCh := rest\<rparr>"]) auto
next
  case (Delete i r)
  then show ?thesis
    by (intro count_inv_same [OF assms(2), where i = i and a = "(calls c ! i)\<lparr>pc := CDec r\<rparr>"])
       auto
next
  case (Timeout i)
  then show ?thesis
    by (intro count_inv_same [OF assms(2), where i = i
          and a = "(calls c ! i)\<lparr>pc := CDelete (Inl (Error ''timeout''))\<rparr>"]) auto
next
  case (OutCall i b r)
  then show ?thesis
    by (intro count_inv_same [OF assms(2), where i = i and a = "(calls c ! i)\<lparr>pc := CWait\<rparr>"])
       auto
next
  case (Deliver ch m)
  then show ?thesis
    by (intro count_inv_same [OF assms(2), where i = ch and a = "(calls c ! ch)\<lparr>respCh := [m]\<rparr>"])
       auto
qed (use assms(2) in \<open>simp_all add: count_inv_def\<close>)

subsection \<open>Correlation\<close>

lemma answers_snoc: "answers x es a m \<Longrightarrow> answers x (es @ [e]) a m"
  by (auto simp: answers_def)

lemma call_ok_snoc: "call_ok x es a \<Longrightarrow> call_ok x (es @ [e]) a"
  by (auto simp: call_ok_def intro: answers_snoc)

lemma corr_inv_snoc: "corr_inv x es c \<Longrightarrow> corr_inv x (es @ [e]) c"
  by (auto simp: corr_inv_def intro: answers_snoc call_ok_snoc)

text \<open>Changing one caller: the invariant needs the new caller to be in order.\<close>

lemma corr_inv_update:
  assumes "corr_inv x es c" and "i < length (calls c)" and "call_ok x es a"
    and "uuid a = uuid (calls c ! i)"
    and "calls c' = (calls c)[i := a]" and "reader c' = reader c \<or> (\<forall>j m. reader c' \<noteq> RDeliver j m)"
  shows "corr_inv x es c'"
  unfolding corr_inv_def
proof (intro conjI allI impI ballI)
  fix j m
  assume d: "reader c' = RDeliver j m"
  with assms(6) have "reader c = RDeliver j m" by auto
  with assms(1) have j: "j < length (calls c)" "answers x es (calls c ! j) m"
    by (auto simp: corr_inv_def)
  from j(1) assms(5) show "j < length (calls c')" by simp
  from j assms(2,4,5) show "answers x es (calls c' ! j) m"
    by (cases "j = i") (simp_all add: answers_def)
next
  fix b
  assume "b \<in> set (calls c')"
  with assms(5) have "b = a \<or> b \<in> set (calls c)"
    using set_update_subset_insert [of "calls c" i a] by auto
  with assms(1,3) show "call_ok x es b"
    by (auto simp: corr_inv_def)
qed

lemma corr_inv_same_calls:
  assumes "corr_inv x es c" and "calls c' = calls c"
    and "reader c' = reader c \<or> (\<forall>j m. reader c' \<noteq> RDeliver j m)"
  shows "corr_inv x es c'"
  using assms by (auto simp: corr_inv_def)

lemma corr_inv_nth: "corr_inv x es c \<Longrightarrow> i < length (calls c) \<Longrightarrow> call_ok x es (calls c ! i)"
  by (simp add: corr_inv_def)

lemma readLoop_iter_deliver:
  assumes "readLoop_iter x tbl r = RDeliver i m"
  shows "\<exists>msg. r = Inr msg \<and> ToMessage x msg = Inr (Some m) \<and> Type m = Resp \<and>
               tbl (Id_m m) = Some i"
  using assms
  by (auto simp: readLoop_iter_def Let_def split: sum.splits option.splits if_splits)

lemma corr_inv_step:
  assumes "step x e c = Some c'" and "table_inv c" and "corr_inv x es c"
  shows "corr_inv x (es @ [e]) c'"
  using assms(1)
proof (cases rule: stepE)
  case (Read r)
  have "corr_inv x (es @ [e]) c'"
    unfolding corr_inv_def
  proof (intro conjI allI impI ballI)
    fix j m
    assume "reader c' = RDeliver j m"
    with Read have "readLoop_iter x (pendingCalls c) r = RDeliver j m" by simp
    from readLoop_iter_deliver [OF this] obtain msg where
      m: "r = Inr msg" "ToMessage x msg = Inr (Some m)" "Type m = Resp"
         "pendingCalls c (Id_m m) = Some j"
      by blast
    from m(4) assms(2) have j: "j < length (calls c)" "uuid (calls c ! j) = Id_m m"
      by (auto simp: table_inv_def)
    from j(1) Read show "j < length (calls c')" by simp
    from j m Read show "answers x (es @ [e]) (calls c' ! j) m"
      by (auto simp: answers_def)
  next
    fix b
    assume "b \<in> set (calls c')"
    with Read assms(3) show "call_ok x (es @ [e]) b"
      by (auto simp: corr_inv_def intro: call_ok_snoc)
  qed
  then show ?thesis .
next
  case Raise
  then show ?thesis
    by (intro corr_inv_snoc corr_inv_same_calls [OF assms(3)]) auto
next
  case (Deliver ch m)
  from assms(3) Deliver have a: "answers x es (calls c ! ch) m"
    by (auto simp: corr_inv_def)
  from corr_inv_nth [OF assms(3) Deliver(3)] Deliver(4) a
  have "call_ok x es ((calls c ! ch)\<lparr>respCh := [m]\<rparr>)"
    by (auto simp: call_ok_def answers_def)
  with Deliver show ?thesis
    by (intro corr_inv_snoc corr_inv_update [OF assms(3), where i = ch
          and a = "(calls c ! ch)\<lparr>respCh := [m]\<rparr>"]) auto
next
  case (OutReader b r)
  then show ?thesis
    by (intro corr_inv_snoc corr_inv_same_calls [OF assms(3)]) auto
next
  case (OutCall i b r)
  from corr_inv_nth [OF assms(3) OutCall(3)] OutCall(4)
  have "call_ok x es ((calls c ! i)\<lparr>pc := CWait\<rparr>)"
    by (auto simp: call_ok_def answers_def)
  with OutCall show ?thesis
    by (intro corr_inv_snoc corr_inv_update [OF assms(3), where i = i
          and a = "(calls c ! i)\<lparr>pc := CWait\<rparr>"]) auto
next
  case (Pong a ok)
  then show ?thesis
    by (intro corr_inv_snoc corr_inv_same_calls [OF assms(3)]) auto
next
  case (PingArrives a)
  then show ?thesis
    by (intro corr_inv_snoc corr_inv_same_calls [OF assms(3)]) auto
next
  case (Close ok v rest)
  then show ?thesis
    by (intro corr_inv_snoc corr_inv_same_calls [OF assms(3)]) auto
next
  case WSend
  then show ?thesis
    by (intro corr_inv_snoc corr_inv_same_calls [OF assms(3)]) auto
next
  case (Load i p)
  from corr_inv_nth [OF assms(3) Load(2)] Load(3,4)
  have "call_ok x es ((calls c ! i)\<lparr>pc := p\<rparr>)"
    by (auto simp: call_ok_def answers_def)
  with Load show ?thesis
    by (intro corr_inv_snoc corr_inv_update [OF assms(3), where i = i
          and a = "(calls c ! i)\<lparr>pc := p\<rparr>"]) auto
next
  case (Store i raw)
  from corr_inv_nth [OF assms(3) Store(2)] Store(3)
  have "call_ok x es ((calls c ! i)\<lparr>pc := CAdd raw\<rparr>)"
    by (auto simp: call_ok_def answers_def)
  with Store show ?thesis
    by (intro corr_inv_snoc corr_inv_update [OF assms(3), where i = i
          and a = "(calls c ! i)\<lparr>pc := CAdd raw\<rparr>"]) auto
next
  case (Add i raw p)
  from corr_inv_nth [OF assms(3) Add(2)] Add(3,4)
  have "call_ok x es ((calls c ! i)\<lparr>pc := p\<rparr>)"
    by (auto simp: call_ok_def answers_def)
  with Add show ?thesis
    by (intro corr_inv_snoc corr_inv_update [OF assms(3), where i = i
          and a = "(calls c ! i)\<lparr>pc := p\<rparr>"]) auto
next
  case (Recv i resp rest)
  from corr_inv_nth [OF assms(3) Recv(2)] Recv(3,4)
  have "call_ok x es ((calls c ! i)\<lparr>pc := CDelete (Inr resp), respCh := rest\<rparr>)"
    by (auto simp: call_ok_def answers_def)
  with Recv show ?thesis
    by (intro corr_inv_snoc corr_inv_update [OF assms(3), where i = i
          and a = "(calls c ! i)\<lparr>pc := CDelete (Inr resp), respCh := rest\<rparr>"]) auto
next
  case (Delete i r)
  from corr_inv_nth [OF assms(3) Delete(2)] Delete(3)
  have "call_ok x es ((calls c ! i)\<lparr>pc := CDec r\<rparr>)"
    by (cases r) (auto simp: call_ok_def answers_def)
  with Delete show ?thesis
    by (intro corr_inv_snoc corr_inv_update [OF assms(3), where i = i
          and a = "(calls c ! i)\<lparr>pc := CDec r\<rparr>"]) auto
next
  case (Dec i r)
  from corr_inv_nth [OF assms(3) Dec(2)] Dec(3)
  have "call_ok x es ((calls c ! i)\<lparr>pc := CReturned r\<rparr>)"
    by (cases r) (auto simp: call_ok_def answers_def)
  with Dec show ?thesis
    by (intro corr_inv_snoc corr_inv_update [OF assms(3), where i = i
          and a = "(calls c ! i)\<lparr>pc := CReturned r\<rparr>"]) auto
next
  case (Timeout i)
  from corr_inv_nth [OF assms(3) Timeout(2)] Timeout(3)
  have "call_ok x es ((calls c ! i)\<lparr>pc := CDelete (Inl (Error ''timeout''))\<rparr>)"
    by (auto simp: call_ok_def answers_def)
  with Timeout show ?thesis
    by (intro corr_inv_snoc corr_inv_update [OF assms(3), where i = i
          and a = "(calls c ! i)\<lparr>pc := CDelete (Inl (Error ''timeout''))\<rparr>"]) auto
qed

lemma run_induct:
  assumes "run x es c0 = Some c" and "P [] c0"
    and "\<And>es c e c'. P es c \<Longrightarrow> step x e c = Some c' \<Longrightarrow> P (es @ [e]) c'"
  shows "P es c"
  using assms(1)
proof (induction es arbitrary: c rule: rev_induct)
  case Nil
  with assms(2) show ?case by simp
next
  case (snoc e es)
  from snoc.prems obtain c1 where r: "run x es c0 = Some c1" and s: "step x e c1 = Some c"
    by (auto simp: run_snoc split: option.splits)
  from assms(3) [OF snoc.IH [OF r] s] show ?case .
qed

subsection \<open>Deliveries\<close>

lemma sum_list_update_holding:
  assumes "i < length xs"
  shows "sum_list (map f (xs[i := y])) + f (xs ! i) = sum_list (map f xs) + (f y :: nat)"
  using assms
proof (induction xs arbitrary: i)
  case Nil
  then show ?case by simp
next
  case (Cons a xs)
  show ?case
  proof (cases i)
    case 0
    then show ?thesis by simp
  next
    case (Suc j)
    with Cons.prems have "j < length xs" by simp
    from Cons.IH [OF this] Suc show ?thesis by simp
  qed
qed


lemma delivering_iter:
  "delivering (readLoop_iter x tbl r) \<le> (if resp_read x (Read r) then 1 else 0)"
  by (cases r)
     (auto simp: readLoop_iter_def delivering_def Let_def split: sum.splits option.splits)

lemma transit_update:
  assumes "i < length (calls c)" and "calls c' = (calls c)[i := a]"
    and "delivering (reader c') + holding a = delivering (reader c) + holding (calls c ! i)"
  shows "in_transit c' = in_transit c"
  using sum_list_update_holding [OF assms(1), of holding a] assms(2,3)
  by (simp add: in_transit_def)

lemma transit_step:
  assumes "step x e c = Some c'"
  shows "in_transit c' \<le> in_transit c + (if resp_read x e then 1 else 0)"
  using assms
proof (cases rule: stepE)
  case (Read r)
  with delivering_iter [of x "pendingCalls c" r] show ?thesis
    by (simp add: in_transit_def delivering_def)
next
  case (Deliver ch m)
  then have "in_transit c' = in_transit c"
    by (intro transit_update [where i = ch and a = "(calls c ! ch)\<lparr>respCh := [m]\<rparr>"])
       (auto simp: holding_def delivering_def)
  then show ?thesis by simp
next
  case (OutCall i b r)
  then have "in_transit c' = in_transit c"
    by (intro transit_update [where i = i and a = "(calls c ! i)\<lparr>pc := CWait\<rparr>"])
       (auto simp: holding_def delivering_def)
  then show ?thesis by simp
next
  case (Load i p)
  then have "in_transit c' = in_transit c"
    by (intro transit_update [where i = i and a = "(calls c ! i)\<lparr>pc := p\<rparr>"])
       (auto simp: holding_def delivering_def)
  then show ?thesis by simp
next
  case (Store i raw)
  then have "in_transit c' = in_transit c"
    by (intro transit_update [where i = i and a = "(calls c ! i)\<lparr>pc := CAdd raw\<rparr>"])
       (auto simp: holding_def delivering_def)
  then show ?thesis by simp
next
  case (Add i raw p)
  then have "in_transit c' = in_transit c"
    by (intro transit_update [where i = i and a = "(calls c ! i)\<lparr>pc := p\<rparr>"])
       (auto simp: holding_def delivering_def)
  then show ?thesis by simp
next
  case (Recv i resp rest)
  then have "in_transit c' = in_transit c"
    by (intro transit_update [where i = i
          and a = "(calls c ! i)\<lparr>pc := CDelete (Inr resp), respCh := rest\<rparr>"])
       (auto simp: holding_def delivering_def)
  then show ?thesis by simp
next
  case (Delete i r)
  then have "in_transit c' = in_transit c"
    by (intro transit_update [where i = i and a = "(calls c ! i)\<lparr>pc := CDec r\<rparr>"])
       (cases r; auto simp: holding_def delivering_def)+
  then show ?thesis by simp
next
  case (Dec i r)
  then have "in_transit c' = in_transit c"
    by (intro transit_update [where i = i and a = "(calls c ! i)\<lparr>pc := CReturned r\<rparr>"])
       (cases r; auto simp: holding_def delivering_def)+
  then show ?thesis by simp
next
  case (Timeout i)
  then have "in_transit c' = in_transit c"
    by (intro transit_update [where i = i
          and a = "(calls c ! i)\<lparr>pc := CDelete (Inl (Error ''timeout''))\<rparr>"])
       (auto simp: holding_def delivering_def)
  then show ?thesis by simp
qed (simp_all add: in_transit_def delivering_def)

lemma transit_run:
  assumes "run x es c0 = Some c"
  shows "in_transit c \<le> in_transit c0 + length (filter (resp_read x) es)"
proof (rule run_induct [OF assms,
      where P = "\<lambda>es c. in_transit c \<le> in_transit c0 + length (filter (resp_read x) es)"])
  show "in_transit c0 \<le> in_transit c0 + length (filter (resp_read x) [])" by simp
next
  fix es c e c'
  assume "in_transit c \<le> in_transit c0 + length (filter (resp_read x) es)"
    and "step x e c = Some c'"
  with transit_step [of x e c c']
  show "in_transit c' \<le> in_transit c0 + length (filter (resp_read x) (es @ [e]))"
    by (simp split: if_splits)
qed

lemma received_le_holding:
  "length (filter (\<lambda>a. received (pc a) \<noteq> None) xs) \<le> sum_list (map holding xs)"
  by (induction xs) (auto simp: holding_def)

subsection \<open>Deregistration\<close>


subsection \<open>The transport's write side\<close>




subsection \<open>The close signals\<close>


lemmas eval_defs = makeClient_def new_call_def Call_step_def Call_timeout_def set_pc_def int32_def
  sample_def sample_ToBytes_def sample_ToMessage_def sample_getHandler_def readLoop_iter_def
  write_text_def pingHandler_def FormatCloseMessage_def CloseNormalClosure_def

subsection \<open>Reachable states\<close>

lemma run_calls:
  assumes "run x es (makeClient ident mx inputs) = Some c"
  shows "length (calls c) = length inputs \<and>
         (\<forall>j. uuid (calls c ! j) = uuid (map new_call inputs ! j))"
proof (rule run_induct [OF assms, where P = "\<lambda>es c. length (calls c) = length inputs \<and>
         (\<forall>j. uuid (calls c ! j) = uuid (map new_call inputs ! j))"])
  show "length (calls (makeClient ident mx inputs)) = length inputs \<and>
        (\<forall>j. uuid (calls (makeClient ident mx inputs) ! j) = uuid (map new_call inputs ! j))"
    by (simp add: makeClient_def)
next
  fix es c e c'
  assume "length (calls c) = length inputs \<and>
         (\<forall>j. uuid (calls c ! j) = uuid (map new_call inputs ! j))"
    and "step x e c = Some c'"
  with step_frame [of x e c c']
  show "length (calls c') = length inputs \<and>
         (\<forall>j. uuid (calls c' ! j) = uuid (map new_call inputs ! j))"
    by simp
qed

lemma run_uuid:
  assumes "run x es (makeClient ident mx inputs) = Some c"
  shows "map uuid (calls c) = map (snd \<circ> snd) inputs"
proof (rule nth_equalityI)
  from run_calls [OF assms] show "length (map uuid (calls c)) = length (map (snd \<circ> snd) inputs)"
    by simp
next
  fix i
  assume "i < length (map uuid (calls c))"
  with run_calls [OF assms] show "map uuid (calls c) ! i = map (snd \<circ> snd) inputs ! i"
    by (simp add: new_call_def)
qed

lemma run_table_inv:
  assumes "run x es (makeClient ident mx inputs) = Some c"
  shows "table_inv c"
proof (rule run_induct [OF assms, where P = "\<lambda>es c. table_inv c"])
  show "table_inv (makeClient ident mx inputs)"
    by (simp add: table_inv_def makeClient_def)
qed (rule table_inv_step)

lemma run_count_inv:
  assumes "run x es (makeClient ident mx inputs) = Some c"
  shows "count_inv c"
proof (rule run_induct [OF assms, where P = "\<lambda>es c. count_inv c"])
  show "count_inv (makeClient ident mx inputs)"
    by (simp add: count_inv_def makeClient_def new_call_def filter_empty_conv)
qed (rule count_inv_step)

lemma run_corr_inv:
  assumes "run x es (makeClient ident mx inputs) = Some c"
  shows "table_inv c \<and> corr_inv x es c"
proof (rule run_induct [OF assms, where P = "\<lambda>es c. table_inv c \<and> corr_inv x es c"])
  show "table_inv (makeClient ident mx inputs) \<and> corr_inv x [] (makeClient ident mx inputs)"
    by (auto simp: table_inv_def corr_inv_def call_ok_def makeClient_def new_call_def)
next
  fix es c e c'
  assume "table_inv c \<and> corr_inv x es c" and "step x e c = Some c'"
  then show "table_inv c' \<and> corr_inv x (es @ [e]) c'"
    by (simp add: table_inv_step corr_inv_step)
qed




lemma filter_without:
  assumes "i < length xs" and "\<not> P (xs ! i)"
  shows "length (filter P (take i xs @ drop (Suc i) xs)) = length (filter P xs)"
proof -
  from assms(1) have "xs = take i xs @ xs ! i # drop (Suc i) xs"
    by (rule id_take_nth_drop)
  then have "filter P xs = filter P (take i xs @ xs ! i # drop (Suc i) xs)"
    by simp
  with assms(2) show ?thesis by simp
qed

lemma step_one_channel:
  assumes "step x e c = Some c'"
    and "respCh (calls c' ! i) \<noteq> respCh (calls c ! i)"
    and "respCh (calls c' ! j) \<noteq> respCh (calls c ! j)"
  shows "i = j"
  using assms(1)
proof (cases rule: stepE)
  case (Deliver ch m)
  with assms(2,3) have "i = ch" "j = ch"
    by (auto simp: nth_list_update split: if_splits)
  then show ?thesis by simp
next
  case (Recv k resp rest)
  with assms(2,3) have "i = k" "j = k"
    by (auto simp: nth_list_update split: if_splits)
  then show ?thesis by simp
qed (use assms(2,3) in \<open>auto simp: nth_list_update split: if_splits\<close>)

subsection \<open>Registered callers\<close>

lemma reg_inv_calls:
  assumes "reg_inv c" and "pendingCalls c' = pendingCalls c"
    and "length (calls c') = length (calls c)"
    and "\<And>j. uuid (calls c' ! j) = uuid (calls c ! j)"
    and "\<And>j. j < length (calls c) \<Longrightarrow> registered (pc (calls c' ! j))
           \<Longrightarrow> registered (pc (calls c ! j))"
  shows "reg_inv c'"
  using assms by (simp add: reg_inv_def)

lemma reg_inv_step:
  assumes "step x e c = Some c'" and "reg_inv c" and "distinct (map uuid (calls c))"
  shows "reg_inv c'"
  using assms(1)
proof (cases rule: stepE)
  case (Store i raw)
  show ?thesis
    unfolding reg_inv_def
  proof (intro allI impI)
    fix j
    assume j: "j < length (calls c')" and r: "registered (pc (calls c' ! j))"
    show "pendingCalls c' (uuid (calls c' ! j)) = Some j"
    proof (cases "j = i")
      case True
      with Store show ?thesis by simp
    next
      case False
      with Store j assms(3) have "uuid (calls c ! j) \<noteq> uuid (calls c ! i)"
        by (auto simp: distinct_conv_nth)
      with False Store j r assms(2) show ?thesis by (simp add: reg_inv_def)
    qed
  qed
next
  case (Delete i r)
  show ?thesis
    unfolding reg_inv_def
  proof (intro allI impI)
    fix j
    assume j: "j < length (calls c')" and r: "registered (pc (calls c' ! j))"
    from Delete r have ne: "j \<noteq> i" by (auto simp: nth_list_update split: if_splits)
    with Delete j assms(3) have "uuid (calls c ! j) \<noteq> uuid (calls c ! i)"
      by (auto simp: distinct_conv_nth)
    with ne Delete j r assms(2) show "pendingCalls c' (uuid (calls c' ! j)) = Some j"
      by (simp add: reg_inv_def)
  qed
qed (rule reg_inv_calls [OF assms(2)]; auto simp: nth_list_update split: if_splits; fail)+

lemma run_reg_inv:
  assumes "run x es (makeClient ident mx inputs) = Some c"
    and "distinct (map (snd \<circ> snd) inputs)"
  shows "reg_inv c"
proof -
  have "reg_inv c \<and> map uuid (calls c) = map (snd \<circ> snd) inputs"
  proof (rule run_induct [OF assms(1),
        where P = "\<lambda>es c. reg_inv c \<and> map uuid (calls c) = map (snd \<circ> snd) inputs"])
    show "reg_inv (makeClient ident mx inputs) \<and>
        map uuid (calls (makeClient ident mx inputs)) = map (snd \<circ> snd) inputs"
      by (simp add: reg_inv_def makeClient_def new_call_def comp_def)
  next
    fix es c e c'
    assume h: "reg_inv c \<and> map uuid (calls c) = map (snd \<circ> snd) inputs"
      and s: "step x e c = Some c'"
    from h assms(2) have "distinct (map uuid (calls c))" by simp
    with h s have "reg_inv c'" by (simp add: reg_inv_step)
    moreover from step_frame [OF s] have "map uuid (calls c') = map uuid (calls c)"
      by (intro nth_equalityI) simp_all
    ultimately show "reg_inv c' \<and> map uuid (calls c') = map (snd \<circ> snd) inputs"
      using h by simp
  qed
  then show ?thesis by simp
qed

lemma deliver_to_waiting:
  assumes "i < length (calls c)" and "pc (calls c ! i) = CWait" and "respCh (calls c ! i) = []"
    and "reader c = RRead" and "pendingCalls c (Id_m m) = Some i"
    and "ToMessage x msg = Inr (Some m)" and "Type m = Resp"
  shows "\<exists>c'. run x [Read (Inr msg), ReaderSend, CallStep i, CallStep i, CallStep i] c = Some c' \<and>
           pc (calls c' ! i) = CReturned (Inr m) \<and>
           (\<forall>j. j \<noteq> i \<longrightarrow> calls c' ! j = calls c ! j)"
  using assms by (simp add: readLoop_iter_def Call_step_def set_pc_def)

section \<open>The read worker's treatment of one frame\<close>

lemma readLoop_iter_reply:
  assumes "readLoop_iter x tbl r = RSendOut msgOut"
  shows "\<exists>msg message h respData.
           r = Inr msg \<and> ToMessage x msg = Inr (Some message) \<and> Type message \<noteq> Resp \<and>
           getHandler x (Action message) = Some h \<and> h message = Some respData \<and>
           ToBytes x \<lparr>Id_m = Id_m message, Type = Resp, Action = Action message,
                      Data = respData\<rparr> = Inr msgOut"
  using assms
  by (auto simp: readLoop_iter_def Let_def split: sum.splits option.splits if_splits)

lemma readLoop_iter2_reply:
  assumes "readLoop_iter2 x u tbl r = RSendOut msgOut"
  shows "\<exists>msg message h respData.
           r = Inr msg \<and> ToMessage x msg = Inr (Some message) \<and> Type message \<noteq> Resp \<and>
           getHandler x (Action message) = Some h \<and> h message = Some respData \<and>
           ToBytes x \<lparr>Id_m = u, Type = Resp, Action = Action message,
                      Data = respData\<rparr> = Inr msgOut"
  using assms
  by (auto simp: readLoop_iter2_def Let_def split: sum.splits option.splits if_splits)

text \<open>
  C6. The response to a request whose handler succeeds should carry the request's id and
  action. The first copy builds it so (\<open>readLoop_iter_reply\<close>). The second copy gives it
  the id \<^verbatim>\<open>uuid.NewString()\<close>: on the request \<open>r-1\<close> for the action \<open>echo\<close>, with \<open>u-1\<close>
  the generated string, the message it enqueues has the id \<open>u-1\<close>, where the first copy
  enqueues one with the id \<open>r-1\<close>.
\<close>

theorem C6_second_copy_fresh_id:
  "sample_ToMessage ''req-echo''
     = Inr (Some \<lparr>Id_m = ''r-1'', Type = Req, Action = ''echo'', Data = ''x''\<rparr>) \<and>
   readLoop_iter2 sample ''u-1'' Map.empty (Inr ''req-echo'') = RSendOut ''u-1|response|echo|x'' \<and>
   readLoop_iter sample Map.empty (Inr ''req-echo'') = RSendOut ''r-1|response|echo|x''"
  by (simp add: readLoop_iter_def readLoop_iter2_def sample_def sample_ToMessage_def
      sample_ToBytes_def sample_getHandler_def)

text \<open>
  C7, as the claim states it, fails: on a request whose action has no handler the first
  copy goes back to the top of its loop, and the connection is exactly as before: no close
  signal, nothing enqueued.
\<close>

theorem C7_counterexample:
  "sample_ToMessage ''req-unknown''
     = Inr (Some \<lparr>Id_m = ''r-2'', Type = Req, Action = ''unknown'', Data = ''y''\<rparr>) \<and>
   sample_getHandler ''unknown'' = None \<and>
   readLoop_iter sample Map.empty (Inr ''req-unknown'') = RRead \<and>
   step sample (Read (Inr ''req-unknown'')) (makeClient ''c1'' 1 [])
     = Some (makeClient ''c1'' 1 [])"
  by (simp add: readLoop_iter_def sample_def sample_ToMessage_def sample_getHandler_def
      makeClient_def)

text \<open>
  C7, amended. For a request whose action has no handler, read while the worker is in
  \<^verbatim>\<open>ReadMessage\<close>: the first copy of the read worker skips the request and continues with
  the connection unchanged (nothing is enqueued, no close signal is raised). The second
  copy goes to its send on the close channel (line 362): when the channel is empty the
  signal is raised and the worker has returned, having deregistered the connection; when
  the channel already holds a signal the send cannot complete and the worker waits there.
  Neither copy builds an error response.
\<close>

theorem C7_unknown_action:
  assumes "ToMessage x msg = Inr (Some message)" and "Type message \<noteq> Resp"
    and "getHandler x (Action message) = None" and "reader c = RRead"
  shows "readLoop_iter x tbl (Inr msg) = RRead \<and>
         readLoop_iter2 x u tbl (Inr msg) = RRaise \<and>
         step x (Read (Inr msg)) c = Some c \<and>
         readLoop_step2 x u (Read (Inr msg)) c = Some (c\<lparr>reader := RRaise\<rparr>) \<and>
         readLoop_step2 x u ReaderSend (c\<lparr>reader := RRaise\<rparr>)
           = (if closeCh c = []
              then Some (c\<lparr>closeCh := [True], reader := RReturned,
                           removed := removed c @ [id_c c]\<rparr>)
              else None)"
  using assms by (simp add: readLoop_iter_def readLoop_iter2_def)

theorem C7_unknown_action_witness:
  "step sample (Read (Inr ''req-unknown'')) (makeClient ''c1'' 1 [])
     = Some (makeClient ''c1'' 1 []) \<and>
   Option.bind (readLoop_step2 sample ''u-1'' (Read (Inr ''req-unknown'')) (makeClient ''c1'' 1 []))
       (readLoop_step2 sample ''u-1'' ReaderSend)
     = Some ((makeClient ''c1'' 1 [])
          \<lparr>closeCh := [True], reader := RReturned, removed := [''c1'']\<rparr>) \<and>
   map_option reader
     (Option.bind
        (run sample [Ping ''p'', WriterPing False, WriterSend] (makeClient ''c1'' 1 []))
        (readLoop_step2 sample ''u-1'' (Read (Inr ''req-unknown''))))
     = Some RRaise \<and>
   Option.bind
     (Option.bind
        (run sample [Ping ''p'', WriterPing False, WriterSend] (makeClient ''c1'' 1 []))
        (readLoop_step2 sample ''u-1'' (Read (Inr ''req-unknown''))))
     (readLoop_step2 sample ''u-1'' ReaderSend)
     = None"
proof -
  have m: "ToMessage sample ''req-unknown''
      = Inr (Some \<lparr>Id_m = ''r-2'', Type = Req, Action = ''unknown'', Data = ''y''\<rparr>)"
    by (simp add: sample_def sample_ToMessage_def)
  have t: "Type \<lparr>Id_m = ''r-2'', Type = Req, Action = ''unknown'', Data = ''y''\<rparr> \<noteq> Resp"
    by simp
  have h: "getHandler sample
      (Action \<lparr>Id_m = ''r-2'', Type = Req, Action = ''unknown'', Data = ''y''\<rparr>) = None"
    by (simp add: sample_def sample_getHandler_def)
  have r0: "reader (makeClient ''c1'' 1 []) = RRead"
    by (simp add: makeClient_def)
  from C7_unknown_action [OF m t h r0, of Map.empty "''u-1''"]
  have a: "step sample (Read (Inr ''req-unknown'')) (makeClient ''c1'' 1 [])
        = Some (makeClient ''c1'' 1 [])"
    and b: "Option.bind
        (readLoop_step2 sample ''u-1'' (Read (Inr ''req-unknown'')) (makeClient ''c1'' 1 []))
        (readLoop_step2 sample ''u-1'' ReaderSend)
      = Some ((makeClient ''c1'' 1 [])
          \<lparr>closeCh := [True], reader := RReturned, removed := [''c1'']\<rparr>)"
    by (simp_all add: makeClient_def)
  obtain c1 where r1: "run sample [Ping ''p'', WriterPing False, WriterSend]
      (makeClient ''c1'' 1 []) = Some c1"
    and p1: "reader c1 = RRead" "closeCh c1 = [True]"
    by (simp add: eval_defs)
  from C7_unknown_action [OF m t h p1(1), of Map.empty "''u-1''"] p1(2)
  have d: "readLoop_step2 sample ''u-1'' (Read (Inr ''req-unknown'')) c1
        = Some (c1\<lparr>reader := RRaise\<rparr>)"
    and e: "readLoop_step2 sample ''u-1'' ReaderSend (c1\<lparr>reader := RRaise\<rparr>) = None"
    by simp_all
  from a b r1 d e show ?thesis by simp
qed

text \<open>
  C8, as the claim states it, fails: in the second copy a frame that decodes to a \<^verbatim>\<open>nil\<close>
  message sends the worker to raise the close signal.
\<close>

theorem C8_counterexample:
  "sample_ToMessage ''null'' = Inr None \<and>
   readLoop_iter2 sample ''u-1'' Map.empty (Inr ''null'') = RRaise"
  by (simp add: readLoop_iter2_def sample_def sample_ToMessage_def)

text \<open>
  C8, amended. For a frame read while the worker is in \<^verbatim>\<open>ReadMessage\<close>: when its decoding
  fails, both copies of the read worker go to their send on the close channel (lines 91
  and 339). When it decodes to a \<^verbatim>\<open>nil\<close> message, the first copy skips it and continues
  with the connection unchanged, and the second copy goes to the same send (line 344).
  From that send, in both copies: when the close channel is empty the signal is raised
  and the worker has returned, having deregistered the connection; when the channel
  already holds a signal the send cannot complete and the worker waits there.
\<close>

theorem C8_nil_and_malformed:
  assumes "reader c = RRead"
  shows
    "(ToMessage x msg = Inl err \<longrightarrow>
        readLoop_iter x tbl (Inr msg) = RRaise \<and> readLoop_iter2 x u tbl (Inr msg) = RRaise \<and>
        step x (Read (Inr msg)) c = Some (c\<lparr>reader := RRaise\<rparr>) \<and>
        readLoop_step2 x u (Read (Inr msg)) c = Some (c\<lparr>reader := RRaise\<rparr>)) \<and>
     (ToMessage x msg = Inr None \<longrightarrow>
        readLoop_iter x tbl (Inr msg) = RRead \<and> readLoop_iter2 x u tbl (Inr msg) = RRaise \<and>
        step x (Read (Inr msg)) c = Some c \<and>
        readLoop_step2 x u (Read (Inr msg)) c = Some (c\<lparr>reader := RRaise\<rparr>)) \<and>
     step x ReaderSend (c\<lparr>reader := RRaise\<rparr>)
       = (if closeCh c = []
          then Some (c\<lparr>closeCh := [True], reader := RReturned, removed := removed c @ [id_c c]\<rparr>)
          else None) \<and>
     readLoop_step2 x u ReaderSend (c\<lparr>reader := RRaise\<rparr>)
       = (if closeCh c = []
          then Some (c\<lparr>closeCh := [True], reader := RReturned, removed := removed c @ [id_c c]\<rparr>)
          else None)"
  using assms by (simp add: readLoop_iter_def readLoop_iter2_def)

theorem C8_nil_and_malformed_witness:
  "run sample [Read (Inr ''garbage''), ReaderSend] (makeClient ''c1'' 1 [])
     = Some ((makeClient ''c1'' 1 [])
          \<lparr>closeCh := [True], reader := RReturned, removed := [''c1'']\<rparr>) \<and>
   step sample (Read (Inr ''null'')) (makeClient ''c1'' 1 []) = Some (makeClient ''c1'' 1 []) \<and>
   Option.bind (readLoop_step2 sample ''u-1'' (Read (Inr ''null'')) (makeClient ''c1'' 1 []))
       (readLoop_step2 sample ''u-1'' ReaderSend)
     = Some ((makeClient ''c1'' 1 [])
          \<lparr>closeCh := [True], reader := RReturned, removed := [''c1'']\<rparr>) \<and>
   map_option reader
     (run sample [Ping ''p'', WriterPing False, WriterSend, Read (Inr ''garbage'')]
        (makeClient ''c1'' 1 []))
     = Some RRaise \<and>
   run sample [Ping ''p'', WriterPing False, WriterSend, Read (Inr ''garbage''), ReaderSend]
     (makeClient ''c1'' 1 [])
     = None"
proof -
  have g: "ToMessage sample ''garbage'' = Inl (Error ''malformed'')"
    by (simp add: sample_def sample_ToMessage_def)
  have n: "ToMessage sample ''null'' = Inr None"
    by (simp add: sample_def sample_ToMessage_def)
  have r0: "reader (makeClient ''c1'' 1 []) = RRead"
    by (simp add: makeClient_def)
  from C8_nil_and_malformed [OF r0, of sample "''garbage''" "Error ''malformed''" Map.empty
      "''u-1''"] g
  have a: "run sample [Read (Inr ''garbage''), ReaderSend] (makeClient ''c1'' 1 [])
     = Some ((makeClient ''c1'' 1 [])
          \<lparr>closeCh := [True], reader := RReturned, removed := [''c1'']\<rparr>)"
    by (simp add: makeClient_def)
  from C8_nil_and_malformed [OF r0, of sample "''null''" _ Map.empty "''u-1''"] n
  have b: "step sample (Read (Inr ''null'')) (makeClient ''c1'' 1 [])
        = Some (makeClient ''c1'' 1 [])"
    and b2: "Option.bind
        (readLoop_step2 sample ''u-1'' (Read (Inr ''null'')) (makeClient ''c1'' 1 []))
        (readLoop_step2 sample ''u-1'' ReaderSend)
      = Some ((makeClient ''c1'' 1 [])
          \<lparr>closeCh := [True], reader := RReturned, removed := [''c1'']\<rparr>)"
    by (simp_all add: makeClient_def)
  obtain c1 where r1: "run sample [Ping ''p'', WriterPing False, WriterSend]
      (makeClient ''c1'' 1 []) = Some c1"
    and p1: "reader c1 = RRead" "closeCh c1 = [True]"
    by (simp add: eval_defs)
  from C8_nil_and_malformed [OF p1(1), of sample "''garbage''" "Error ''malformed''" Map.empty
      "''u-1''"] g p1(2)
  have d: "step sample (Read (Inr ''garbage'')) c1 = Some (c1\<lparr>reader := RRaise\<rparr>)"
    and e: "step sample ReaderSend (c1\<lparr>reader := RRaise\<rparr>) = None"
    by simp_all
  from r1 d have f: "run sample ([Ping ''p'', WriterPing False, WriterSend]
      @ [Read (Inr ''garbage'')]) (makeClient ''c1'' 1 []) = Some (c1\<lparr>reader := RRaise\<rparr>)"
    by (simp only: run_snoc option.case)
  with e have "run sample (([Ping ''p'', WriterPing False, WriterSend]
      @ [Read (Inr ''garbage'')]) @ [ReaderSend]) (makeClient ''c1'' 1 []) = None"
    by (simp only: run_snoc option.case)
  with a b b2 f show ?thesis by simp
qed

section \<open>Calls and their responses\<close>

text \<open>
  C1. In every run of the connection, whatever the order of the steps of the workers and
  of the callers and whatever frames the peer sends: a caller that has returned a
  response has returned one whose id is the id of its own request, of type Response, and
  decoded from a frame that was read. The callers that hold a response are never more
  than the response frames read, and no step puts a message into the channels of two
  callers. When the ids are distinct, a response frame with the id of a waiting caller,
  read while that caller's channel is empty, is delivered to that caller, which returns
  it, and no other caller changes.
\<close>

theorem C1_response_matches_request:
  assumes "run x es (makeClient ident mx inputs) = Some c"
  shows "length (calls c) = length inputs \<and>
    (\<forall>i<length inputs. \<forall>resp.
        pc (calls c ! i) = CReturned (Inr resp) \<longrightarrow>
          Id_m resp = snd (snd (inputs ! i)) \<and> Type resp = Resp \<and>
          (\<exists>msg. Read (Inr msg) \<in> set es \<and> ToMessage x msg = Inr (Some resp))) \<and>
    length (filter (\<lambda>a. received (pc a) \<noteq> None) (calls c))
      \<le> length (filter (resp_read x) es) \<and>
    (\<forall>e c' i j. step x e c = Some c' \<and>
        respCh (calls c' ! i) \<noteq> respCh (calls c ! i) \<and>
        respCh (calls c' ! j) \<noteq> respCh (calls c ! j) \<longrightarrow> i = j) \<and>
    (distinct (map (snd \<circ> snd) inputs) \<longrightarrow>
      (\<forall>i<length inputs. \<forall>msg m.
         pc (calls c ! i) = CWait \<and> respCh (calls c ! i) = [] \<and> reader c = RRead \<and>
         ToMessage x msg = Inr (Some m) \<and> Type m = Resp \<and> Id_m m = snd (snd (inputs ! i)) \<longrightarrow>
         (\<exists>c'. run x [Read (Inr msg), ReaderSend, CallStep i, CallStep i, CallStep i] c = Some c' \<and>
            pc (calls c' ! i) = CReturned (Inr m) \<and>
            (\<forall>j. j \<noteq> i \<longrightarrow> calls c' ! j = calls c ! j))))"
proof (intro conjI allI impI)
  from run_calls [OF assms] show len: "length (calls c) = length inputs" by simp
  {
    fix i resp
    assume i: "i < length inputs" and r: "pc (calls c ! i) = CReturned (Inr resp)"
    from run_corr_inv [OF assms] i len have "call_ok x es (calls c ! i)"
      by (simp add: corr_inv_def)
    with r have a: "answers x es (calls c ! i) resp"
      by (simp add: call_ok_def)
    from run_calls [OF assms] i have "uuid (calls c ! i) = snd (snd (inputs ! i))"
      by (simp add: new_call_def)
    with a show "Id_m resp = snd (snd (inputs ! i))" by (simp add: answers_def)
    from a show "Type resp = Resp" by (simp add: answers_def)
    from a show "\<exists>msg. Read (Inr msg) \<in> set es \<and> ToMessage x msg = Inr (Some resp)"
      by (simp add: answers_def)
  }
  from transit_run [OF assms]
  have "in_transit c \<le> length (filter (resp_read x) es)"
    by (simp add: in_transit_def makeClient_def delivering_def holding_def new_call_def
        comp_def)
  moreover have "length (filter (\<lambda>a. received (pc a) \<noteq> None) (calls c)) \<le> in_transit c"
    using received_le_holding [of "calls c"] by (simp add: in_transit_def)
  ultimately show "length (filter (\<lambda>a. received (pc a) \<noteq> None) (calls c))
      \<le> length (filter (resp_read x) es)"
    by simp
  {
    fix e c' i j
    assume "step x e c = Some c' \<and>
        respCh (calls c' ! i) \<noteq> respCh (calls c ! i) \<and>
        respCh (calls c' ! j) \<noteq> respCh (calls c ! j)"
    then show "i = j" using step_one_channel by blast
  }
  fix i msg m
  assume d: "distinct (map (snd \<circ> snd) inputs)" and i: "i < length inputs"
    and h: "pc (calls c ! i) = CWait \<and> respCh (calls c ! i) = [] \<and> reader c = RRead \<and>
         ToMessage x msg = Inr (Some m) \<and> Type m = Resp \<and> Id_m m = snd (snd (inputs ! i))"
  from run_calls [OF assms] i have u: "uuid (calls c ! i) = snd (snd (inputs ! i))"
    by (simp add: new_call_def)
  from h have "registered (pc (calls c ! i))" by simp
  with run_reg_inv [OF assms d] i len have "pendingCalls c (uuid (calls c ! i)) = Some i"
    by (simp add: reg_inv_def)
  with h u have "pendingCalls c (Id_m m) = Some i" by simp
  with i len h deliver_to_waiting [of i c m x msg]
  show "\<exists>c'. run x [Read (Inr msg), ReaderSend, CallStep i, CallStep i, CallStep i] c = Some c' \<and>
            pc (calls c' ! i) = CReturned (Inr m) \<and>
            (\<forall>j. j \<noteq> i \<longrightarrow> calls c' ! j = calls c ! j)"
    by simp
qed

theorem C1_response_matches_request_witness:
  "distinct (map (snd \<circ> snd)
     [(''A'', Inr ''1'' :: error + bytes, ''id-A''), (''B'', Inr ''2'', ''id-B'')]) \<and>
   map_option (map pc \<circ> calls)
     (run sample [CallStep 0, CallStep 0, CallStep 0, CallStep 1, CallStep 1, CallStep 1,
                  WriterOut (FromCall 0) WriteOk, WriterOut (FromCall 1) WriteOk]
        (makeClient ''c1'' 2 [(''A'', Inr ''1'', ''id-A''), (''B'', Inr ''2'', ''id-B'')]))
   = Some [CWait, CWait] \<and>
   map_option (map pc \<circ> calls)
     (run sample [CallStep 0, CallStep 0, CallStep 0, CallStep 1, CallStep 1, CallStep 1,
                  WriterOut (FromCall 0) WriteOk, WriterOut (FromCall 1) WriteOk,
                  Read (Inr ''resp-B''), ReaderSend, CallStep 1, CallStep 1, CallStep 1,
                  Read (Inr ''resp-A''), ReaderSend, CallStep 0, CallStep 0, CallStep 0]
        (makeClient ''c1'' 2 [(''A'', Inr ''1'', ''id-A''), (''B'', Inr ''2'', ''id-B'')]))
   = Some [CReturned (Inr \<lparr>Id_m = ''id-A'', Type = Resp, Action = ''A'', Data = ''a''\<rparr>),
           CReturned (Inr \<lparr>Id_m = ''id-B'', Type = Resp, Action = ''B'', Data = ''b''\<rparr>)]"
proof -
  let ?inputs = "[(''A'', Inr ''1'' :: error + bytes, ''id-A''), (''B'', Inr ''2'', ''id-B'')]"
  let ?mA = "\<lparr>Id_m = ''id-A'', Type = Resp, Action = ''A'', Data = ''a''\<rparr>"
  let ?mB = "\<lparr>Id_m = ''id-B'', Type = Resp, Action = ''B'', Data = ''b''\<rparr>"
  have d: "distinct (map (snd \<circ> snd) ?inputs)" by simp
  obtain c where r: "run sample [CallStep 0, CallStep 0, CallStep 0, CallStep 1, CallStep 1,
        CallStep 1, WriterOut (FromCall 0) WriteOk, WriterOut (FromCall 1) WriteOk]
        (makeClient ''c1'' 2 ?inputs) = Some c"
    and w: "pc (calls c ! 1) = CWait \<and> respCh (calls c ! 1) = [] \<and> reader c = RRead"
    and p: "map pc (calls c) = [CWait, CWait]"
    by (simp add: eval_defs)
  have mB: "ToMessage sample ''resp-B'' = Inr (Some ?mB) \<and> Type ?mB = Resp \<and>
      Id_m ?mB = snd (snd (?inputs ! 1))"
    by (simp add: sample_def sample_ToMessage_def)
  from C1_response_matches_request [OF r] d
  have "\<forall>i<length ?inputs. \<forall>msg m.
         pc (calls c ! i) = CWait \<and> respCh (calls c ! i) = [] \<and> reader c = RRead \<and>
         ToMessage sample msg = Inr (Some m) \<and> Type m = Resp \<and>
         Id_m m = snd (snd (?inputs ! i)) \<longrightarrow>
         (\<exists>c'. run sample [Read (Inr msg), ReaderSend, CallStep i, CallStep i, CallStep i] c
              = Some c' \<and>
            pc (calls c' ! i) = CReturned (Inr m) \<and>
            (\<forall>j. j \<noteq> i \<longrightarrow> calls c' ! j = calls c ! j))"
    by blast
  from this [rule_format, of 1 "''resp-B''" ?mB] w mB obtain c' where
    r': "run sample [Read (Inr ''resp-B''), ReaderSend, CallStep 1, CallStep 1, CallStep 1] c
        = Some c'"
    and b: "pc (calls c' ! 1) = CReturned (Inr ?mB)"
    by (auto simp del: run.simps)
  obtain c2 where r2: "run sample [CallStep 0, CallStep 0, CallStep 0, CallStep 1, CallStep 1,
        CallStep 1, WriterOut (FromCall 0) WriteOk, WriterOut (FromCall 1) WriteOk,
        Read (Inr ''resp-B''), ReaderSend, CallStep 1, CallStep 1, CallStep 1,
        Read (Inr ''resp-A''), ReaderSend, CallStep 0, CallStep 0, CallStep 0]
        (makeClient ''c1'' 2 ?inputs) = Some c2"
    and p2: "map pc (calls c2) = [CReturned (Inr ?mA), CReturned (Inr ?mB)]"
    by (simp add: eval_defs)
  from p2 have "pc (calls c2 ! 0) = CReturned (Inr ?mA)"
    by (auto simp: list_eq_iff_nth_eq dest!: spec [where x = 0])
  with C1_response_matches_request [OF r2] have "Id_m ?mA = snd (snd (?inputs ! 0))"
    by simp
  with d r p r2 p2 b show ?thesis by simp
qed

lemma Call_completes:
  assumes "i < length (calls c)" and "pc (calls c ! i) = CWait"
  shows "(\<exists>c'. run x [Timeout i, CallStep i, CallStep i] c = Some c' \<and>
            pc (calls c' ! i) = CReturned (Inl (Error ''timeout'')) \<and>
            pendingCalls c' = (pendingCalls c)(uuid (calls c ! i) := None) \<and>
            pendingCnt c' = pendingCnt c - 1) \<and>
         (\<forall>resp rest. respCh (calls c ! i) = resp # rest \<longrightarrow>
            (\<exists>c'. run x [CallStep i, CallStep i, CallStep i] c = Some c' \<and>
               pc (calls c' ! i) = CReturned (Inr resp) \<and>
               pendingCalls c' = (pendingCalls c)(uuid (calls c ! i) := None) \<and>
               pendingCnt c' = pendingCnt c - 1))"
  using assms by (simp add: Call_timeout_def Call_step_def set_pc_def)

lemma returned_not_in_table:
  assumes "run x es (makeClient ident mx inputs) = Some c"
    and "distinct (map (snd \<circ> snd) inputs)"
    and "i < length (calls c)" and "pc (calls c ! i) = CReturned r"
  shows "pendingCalls c (uuid (calls c ! i)) = None"
proof (rule ccontr)
  assume "pendingCalls c (uuid (calls c ! i)) \<noteq> None"
  then obtain j where j: "pendingCalls c (uuid (calls c ! i)) = Some j" by blast
  with run_table_inv [OF assms(1)]
  have jl: "j < length (calls c)" and ju: "uuid (calls c ! j) = uuid (calls c ! i)"
    and jr: "registered (pc (calls c ! j))"
    by (auto simp: table_inv_def)
  from run_uuid [OF assms(1)] assms(2) have "distinct (map uuid (calls c))" by simp
  with jl assms(3) ju have "j = i"
    by (auto simp: distinct_conv_nth)
  with jr assms(4) show False by simp
qed

text \<open>
  C3. In every run in which the callers' ids are distinct: the counter is the number of
  callers that have incremented it and not yet decremented it. A caller that waits
  completes in three steps of its own, on the timer as on a response: the result is
  fixed, its entry is deleted from the table and the counter is decremented by one, and
  then it has returned. Once a caller has returned, the table has no entry for its id,
  and a response with that id that is read afterwards leaves the whole connection as it
  was: nothing is delivered and no error is raised.
\<close>

theorem C3_cleanup:
  assumes "run x es (makeClient ident mx inputs) = Some c"
    and "distinct (map (snd \<circ> snd) inputs)"
  shows "pendingCnt c = of_nat (length (filter (\<lambda>a. counted (pc a)) (calls c))) \<and>
    (\<forall>i<length (calls c). pc (calls c ! i) = CWait \<longrightarrow>
       (\<exists>c'. run x [Timeout i, CallStep i, CallStep i] c = Some c' \<and>
            pc (calls c' ! i) = CReturned (Inl (Error ''timeout'')) \<and>
            pendingCalls c' = (pendingCalls c)(uuid (calls c ! i) := None) \<and>
            pendingCnt c' = pendingCnt c - 1) \<and>
       (\<forall>resp rest. respCh (calls c ! i) = resp # rest \<longrightarrow>
            (\<exists>c'. run x [CallStep i, CallStep i, CallStep i] c = Some c' \<and>
               pc (calls c' ! i) = CReturned (Inr resp) \<and>
               pendingCalls c' = (pendingCalls c)(uuid (calls c ! i) := None) \<and>
               pendingCnt c' = pendingCnt c - 1))) \<and>
    (\<forall>i<length (calls c). \<forall>r. pc (calls c ! i) = CReturned r \<longrightarrow>
       pendingCalls c (uuid (calls c ! i)) = None \<and>
       (\<forall>msg m. reader c = RRead \<and> ToMessage x msg = Inr (Some m) \<and> Type m = Resp \<and>
                Id_m m = uuid (calls c ! i) \<longrightarrow> step x (Read (Inr msg)) c = Some c))"
proof (intro conjI allI impI)
  from run_count_inv [OF assms(1)]
  show "pendingCnt c = of_nat (length (filter (\<lambda>a. counted (pc a)) (calls c)))"
    by (simp add: count_inv_def)
next
  fix i
  assume "i < length (calls c)" and "pc (calls c ! i) = CWait"
  from Call_completes [OF this, of x]
  show "\<exists>c'. run x [Timeout i, CallStep i, CallStep i] c = Some c' \<and>
            pc (calls c' ! i) = CReturned (Inl (Error ''timeout'')) \<and>
            pendingCalls c' = (pendingCalls c)(uuid (calls c ! i) := None) \<and>
            pendingCnt c' = pendingCnt c - 1"
    by blast
next
  fix i resp rest
  assume "i < length (calls c)" and "pc (calls c ! i) = CWait"
    and "respCh (calls c ! i) = resp # rest"
  with Call_completes [of i c x]
  show "\<exists>c'. run x [CallStep i, CallStep i, CallStep i] c = Some c' \<and>
               pc (calls c' ! i) = CReturned (Inr resp) \<and>
               pendingCalls c' = (pendingCalls c)(uuid (calls c ! i) := None) \<and>
               pendingCnt c' = pendingCnt c - 1"
    by blast
next
  fix i r
  assume i: "i < length (calls c)" and r: "pc (calls c ! i) = CReturned r"
  from returned_not_in_table [OF assms i r]
  show n: "pendingCalls c (uuid (calls c ! i)) = None" .
  fix msg m
  assume "reader c = RRead \<and> ToMessage x msg = Inr (Some m) \<and> Type m = Resp \<and>
                Id_m m = uuid (calls c ! i)"
  with n show "step x (Read (Inr msg)) c = Some c"
    by (simp add: readLoop_iter_def)
qed

theorem C3_cleanup_witness:
  "distinct (map (snd \<circ> snd) [(''A'', Inr ''1'' :: error + bytes, ''id-A'')]) \<and>
   map_option (\<lambda>c. (map pc (calls c), pendingCnt c, pendingCalls c ''id-A''))
     (run sample [CallStep 0, CallStep 0, CallStep 0, WriterOut (FromCall 0) WriteOk]
        (makeClient ''c1'' 1 [(''A'', Inr ''1'', ''id-A'')]))
     = Some ([CWait], 1, Some 0) \<and>
   map_option (\<lambda>c. (map pc (calls c), pendingCnt c, pendingCalls c ''id-A'', reader c))
     (run sample [CallStep 0, CallStep 0, CallStep 0, WriterOut (FromCall 0) WriteOk,
                  Timeout 0, CallStep 0, CallStep 0, Read (Inr ''resp-A'')]
        (makeClient ''c1'' 1 [(''A'', Inr ''1'', ''id-A'')]))
     = Some ([CReturned (Inl (Error ''timeout''))], 0, None, RRead)"
proof -
  have d: "distinct (map (snd \<circ> snd) [(''A'', Inr ''1'' :: error + bytes, ''id-A'')])"
    by simp
  obtain c1 where r1: "run sample [CallStep 0, CallStep 0, CallStep 0,
        WriterOut (FromCall 0) WriteOk] (makeClient ''c1'' 1 [(''A'', Inr ''1'', ''id-A'')])
        = Some c1"
    and w1: "0 < length (calls c1) \<and> pc (calls c1 ! 0) = CWait \<and> uuid (calls c1 ! 0) = ''id-A''"
    and p1: "map pc (calls c1) = [CWait] \<and> pendingCnt c1 = 1 \<and> pendingCalls c1 ''id-A'' = Some 0"
    by (simp add: eval_defs)
  from C3_cleanup [OF r1 d] w1 obtain c2 where
    r2: "run sample [Timeout 0, CallStep 0, CallStep 0] c1 = Some c2"
    and p2: "pc (calls c2 ! 0) = CReturned (Inl (Error ''timeout''))"
      "pendingCalls c2 = (pendingCalls c1)(''id-A'' := None)" "pendingCnt c2 = pendingCnt c1 - 1"
    by auto
  obtain c3 where r3: "run sample [CallStep 0, CallStep 0, CallStep 0,
        WriterOut (FromCall 0) WriteOk, Timeout 0, CallStep 0, CallStep 0]
        (makeClient ''c1'' 1 [(''A'', Inr ''1'', ''id-A'')]) = Some c3"
    and w3: "0 < length (calls c3) \<and> pc (calls c3 ! 0) = CReturned (Inl (Error ''timeout'')) \<and>
         uuid (calls c3 ! 0) = ''id-A'' \<and> reader c3 = RRead"
    and p3: "map pc (calls c3) = [CReturned (Inl (Error ''timeout''))] \<and> pendingCnt c3 = 0"
    by (simp add: eval_defs)
  have m: "ToMessage sample ''resp-A''
        = Inr (Some \<lparr>Id_m = ''id-A'', Type = Resp, Action = ''A'', Data = ''a''\<rparr>)"
    by (simp add: sample_def sample_ToMessage_def)
  from C3_cleanup [OF r3 d] w3 m
  have n3: "pendingCalls c3 ''id-A'' = None"
    and s3: "step sample (Read (Inr ''resp-A'')) c3 = Some c3"
    by auto
  have "run sample ([CallStep 0, CallStep 0, CallStep 0,
        WriterOut (FromCall 0) WriteOk, Timeout 0, CallStep 0, CallStep 0] @ [Read (Inr ''resp-A'')])
        (makeClient ''c1'' 1 [(''A'', Inr ''1'', ''id-A'')]) = Some c3"
    using r3 s3 by (simp only: run_snoc option.case)
  with d r1 p1 w3 p3 n3 show ?thesis by simp
qed

section \<open>Capacity\<close>

text \<open>
  A call that finds the counter at the maximum returns the capacity error at once; only
  its own position changes, the table and the counter are untouched.
\<close>

lemma Call_at_capacity:
  assumes "i < length (calls c)" and "pc (calls c ! i) = CLoad"
    and "sint (int32 (maxPendingCalls c)) \<le> sint (pendingCnt c)"
  shows "Call_step x i c
     = Some (c\<lparr>calls := (calls c)[i := (calls c ! i)
                \<lparr>pc := CReturned (Inl (Error ''max pending calls exceeded''))\<rparr>]\<rparr>)"
  using assms by (simp add: Call_step_def set_pc_def)

text \<open>
  C2. The counter should never exceed the configured maximum, also under concurrent
  calls. The check of line 205 and the increment of line 224 are separate steps: with
  the maximum 1 and two callers that both load the counter (0) before either increments
  it, both pass the check, and after both increments the counter is 2.
\<close>

theorem C2_counter_exceeds_maximum:
  "map_option (\<lambda>c. (map pc (calls c), sint (pendingCnt c), maxPendingCalls c))
     (run sample [CallStep 0, CallStep 1, CallStep 0, CallStep 0, CallStep 1, CallStep 1]
        (makeClient ''c1'' 1 [(''A'', Inr ''1'', ''id-A''), (''B'', Inr ''2'', ''id-B'')]))
   = Some ([CSend ''id-A|request|A|1'', CSend ''id-B|request|B|2''], 2, 1)"
  by (simp add: eval_defs)

section \<open>Local failures of a call\<close>

text \<open>
  C10, as the claim states it, fails when calls run concurrently: the counter is 0 when
  caller 0 begins and passes the check; caller 1 then stores and increments; caller 0,
  whose request cannot be encoded, stores, increments, deletes, decrements and returns
  the error, and at that moment the counter is 1.
\<close>

theorem C10_counterexample:
  "pendingCnt (makeClient ''c1'' 2 [(''unencodable'', Inr ''1'', ''id-B''),
                                    (''A'', Inr ''2'', ''id-A'')]) = 0 \<and>
   map_option (map pc \<circ> calls)
     (run sample [CallStep 0, CallStep 1, CallStep 1, CallStep 1,
                  CallStep 0, CallStep 0, CallStep 0, CallStep 0]
        (makeClient ''c1'' 2 [(''unencodable'', Inr ''1'', ''id-B''),
                              (''A'', Inr ''2'', ''id-A'')]))
     = Some [CReturned (Inl (Error ''encode'')), CSend ''id-A|request|A|2''] \<and>
   map_option pendingCnt
     (run sample [CallStep 0, CallStep 1, CallStep 1, CallStep 1,
                  CallStep 0, CallStep 0, CallStep 0, CallStep 0]
        (makeClient ''c1'' 2 [(''unencodable'', Inr ''1'', ''id-B''),
                              (''A'', Inr ''2'', ''id-A'')]))
     = Some 1"
  by (simp add: eval_defs)

text \<open>
  C10, amended. In every run in which the callers' ids are distinct: once a call has
  returned an error, the table has no entry for its id and the counter does not count
  it: the counter is the number of the other callers between their increment and their
  decrement. A call that begins below the maximum and whose \<^verbatim>\<open>json.Marshal\<close> fails returns
  the error in its first step, which changes nothing but the caller's own position. A
  call whose request cannot be encoded increments the counter and goes to its deferred
  function, which deletes its entry, decrements the counter and returns the error; each
  of these steps can always be taken. When the five steps of such a call follow one
  another with no other step in between, the counter at its return is the counter from
  before the call.
\<close>

theorem C10_local_failures:
  assumes "run x es (makeClient ident mx inputs) = Some c"
    and "distinct (map (snd \<circ> snd) inputs)"
  shows
    "(\<forall>i<length (calls c). \<forall>err. pc (calls c ! i) = CReturned (Inl err) \<longrightarrow>
        pendingCalls c (uuid (calls c ! i)) = None \<and>
        pendingCnt c = of_nat (length (filter (\<lambda>a. counted (pc a))
                                  (take i (calls c) @ drop (Suc i) (calls c))))) \<and>
     (\<forall>i<length (calls c).
        pc (calls c ! i) = CLoad \<and> sint (pendingCnt c) < sint (int32 (maxPendingCalls c)) \<longrightarrow>
        (\<forall>err. marshal (calls c ! i) = Inl err \<longrightarrow>
           step x (CallStep i) c
             = Some (c\<lparr>calls := (calls c)[i := (calls c ! i)\<lparr>pc := CReturned (Inl err)\<rparr>]\<rparr>)) \<and>
        (\<forall>raw err. marshal (calls c ! i) = Inr raw \<and>
           ToBytes x \<lparr>Id_m = uuid (calls c ! i), Type = Req, Action = action (calls c ! i),
                      Data = raw\<rparr> = Inl err \<longrightarrow>
           (\<exists>c'. run x [CallStep i, CallStep i, CallStep i, CallStep i, CallStep i] c = Some c' \<and>
                 pc (calls c' ! i) = CReturned (Inl err) \<and>
                 pendingCalls c' (uuid (calls c ! i)) = None \<and>
                 pendingCnt c' = pendingCnt c))) \<and>
     (\<forall>i<length (calls c). \<forall>raw err.
        pc (calls c ! i) = CAdd raw \<and>
        ToBytes x \<lparr>Id_m = uuid (calls c ! i), Type = Req, Action = action (calls c ! i),
                   Data = raw\<rparr> = Inl err \<longrightarrow>
        step x (CallStep i) c
          = Some (c\<lparr>pendingCnt := pendingCnt c + 1,
                     calls := (calls c)[i := (calls c ! i)\<lparr>pc := CDelete (Inl err)\<rparr>]\<rparr>)) \<and>
     (\<forall>i<length (calls c). \<forall>r.
        pc (calls c ! i) = CDelete r \<longrightarrow>
        step x (CallStep i) c
          = Some (c\<lparr>pendingCalls := (pendingCalls c)(uuid (calls c ! i) := None),
                     calls := (calls c)[i := (calls c ! i)\<lparr>pc := CDec r\<rparr>]\<rparr>)) \<and>
     (\<forall>i<length (calls c). \<forall>r.
        pc (calls c ! i) = CDec r \<longrightarrow>
        step x (CallStep i) c
          = Some (c\<lparr>pendingCnt := pendingCnt c - 1,
                     calls := (calls c)[i := (calls c ! i)\<lparr>pc := CReturned r\<rparr>]\<rparr>))"
proof (intro conjI allI impI)
  fix i err
  assume i: "i < length (calls c)" and r: "pc (calls c ! i) = CReturned (Inl err)"
  from returned_not_in_table [OF assms i r]
  show "pendingCalls c (uuid (calls c ! i)) = None" .
  from r have "\<not> counted (pc (calls c ! i))" by simp
  with filter_without [OF i, of "\<lambda>a. counted (pc a)"] run_count_inv [OF assms(1)]
  show "pendingCnt c = of_nat (length (filter (\<lambda>a. counted (pc a))
                                  (take i (calls c) @ drop (Suc i) (calls c))))"
    by (simp add: count_inv_def)
next
  fix i err
  assume "i < length (calls c)"
    and "pc (calls c ! i) = CLoad \<and> sint (pendingCnt c) < sint (int32 (maxPendingCalls c))"
    and "marshal (calls c ! i) = Inl err"
  then show "step x (CallStep i) c
      = Some (c\<lparr>calls := (calls c)[i := (calls c ! i)\<lparr>pc := CReturned (Inl err)\<rparr>]\<rparr>)"
    by (simp add: Call_step_def set_pc_def)
next
  fix i raw err
  assume "i < length (calls c)"
    and "pc (calls c ! i) = CLoad \<and> sint (pendingCnt c) < sint (int32 (maxPendingCalls c))"
    and "marshal (calls c ! i) = Inr raw \<and>
         ToBytes x \<lparr>Id_m = uuid (calls c ! i), Type = Req, Action = action (calls c ! i),
                    Data = raw\<rparr> = Inl err"
  then show "\<exists>c'. run x [CallStep i, CallStep i, CallStep i, CallStep i, CallStep i] c = Some c' \<and>
                 pc (calls c' ! i) = CReturned (Inl err) \<and>
                 pendingCalls c' (uuid (calls c ! i)) = None \<and>
                 pendingCnt c' = pendingCnt c"
    by (simp add: Call_step_def set_pc_def)
next
  fix i raw err
  assume "i < length (calls c)"
    and "pc (calls c ! i) = CAdd raw \<and>
         ToBytes x \<lparr>Id_m = uuid (calls c ! i), Type = Req, Action = action (calls c ! i),
                    Data = raw\<rparr> = Inl err"
  then show "step x (CallStep i) c
      = Some (c\<lparr>pendingCnt := pendingCnt c + 1,
                 calls := (calls c)[i := (calls c ! i)\<lparr>pc := CDelete (Inl err)\<rparr>]\<rparr>)"
    by (simp add: Call_step_def set_pc_def)
next
  fix i r
  assume "i < length (calls c)" and "pc (calls c ! i) = CDelete r"
  then show "step x (CallStep i) c
      = Some (c\<lparr>pendingCalls := (pendingCalls c)(uuid (calls c ! i) := None),
                 calls := (calls c)[i := (calls c ! i)\<lparr>pc := CDec r\<rparr>]\<rparr>)"
    by (simp add: Call_step_def set_pc_def)
next
  fix i r
  assume "i < length (calls c)" and "pc (calls c ! i) = CDec r"
  then show "step x (CallStep i) c
      = Some (c\<lparr>pendingCnt := pendingCnt c - 1,
                 calls := (calls c)[i := (calls c ! i)\<lparr>pc := CReturned r\<rparr>]\<rparr>)"
    by (simp add: Call_step_def set_pc_def)
qed

theorem C10_local_failures_witness:
  "distinct (map (snd \<circ> snd)
     [(''unencodable'', Inr ''1'' :: error + bytes, ''id-B''), (''A'', Inl (Error ''json''), ''id-A'')]) \<and>
   map_option (\<lambda>c. (map pc (calls c), pendingCalls c ''id-A'', pendingCnt c))
     (run sample [CallStep 1]
        (makeClient ''c1'' 2 [(''unencodable'', Inr ''1'', ''id-B''),
                              (''A'', Inl (Error ''json''), ''id-A'')]))
     = Some ([CLoad, CReturned (Inl (Error ''json''))], None, 0) \<and>
   map_option (\<lambda>c. (map pc (calls c), pendingCalls c ''id-B'', pendingCnt c))
     (run sample [CallStep 0, CallStep 0, CallStep 0, CallStep 0, CallStep 0]
        (makeClient ''c1'' 2 [(''unencodable'', Inr ''1'', ''id-B''),
                              (''A'', Inl (Error ''json''), ''id-A'')]))
     = Some ([CReturned (Inl (Error ''encode'')), CLoad], None, 0) \<and>
   map_option (\<lambda>c. (map pc (calls c), pendingCalls c ''id-B'', pendingCnt c))
     (run sample [CallStep 0, CallStep 0, CallStep 1, CallStep 0, CallStep 0, CallStep 0]
        (makeClient ''c1'' 2 [(''unencodable'', Inr ''1'', ''id-B''),
                              (''A'', Inl (Error ''json''), ''id-A'')]))
     = Some ([CReturned (Inl (Error ''encode'')), CReturned (Inl (Error ''json''))], None, 0)"
proof -
  let ?inputs = "[(''unencodable'', Inr ''1'' :: error + bytes, ''id-B''),
                  (''A'', Inl (Error ''json''), ''id-A'')]"
  have d: "distinct (map (snd \<circ> snd) ?inputs)" by simp
  have r0: "run sample [] (makeClient ''c1'' 2 ?inputs) = Some (makeClient ''c1'' 2 ?inputs)"
    by simp
  have a: "map_option (\<lambda>c. (map pc (calls c), pendingCalls c ''id-A'', pendingCnt c))
     (run sample [CallStep 1] (makeClient ''c1'' 2 ?inputs))
     = Some ([CLoad, CReturned (Inl (Error ''json''))], None, 0) \<and>
    map_option (\<lambda>c. (map pc (calls c), pendingCalls c ''id-B'', pendingCnt c))
     (run sample [CallStep 0, CallStep 0, CallStep 0, CallStep 0, CallStep 0]
        (makeClient ''c1'' 2 ?inputs))
     = Some ([CReturned (Inl (Error ''encode'')), CLoad], None, 0)"
    using C10_local_failures [OF r0 d]
    by (simp add: eval_defs)
  obtain c where r: "run sample [CallStep 0, CallStep 0, CallStep 1, CallStep 0, CallStep 0,
      CallStep 0] (makeClient ''c1'' 2 ?inputs) = Some c"
    and p: "map pc (calls c) = [CReturned (Inl (Error ''encode'')), CReturned (Inl (Error ''json''))]"
      "length (calls c) = 2" "uuid (calls c ! 0) = ''id-B''"
      "pc (calls c ! 0) = CReturned (Inl (Error ''encode''))"
      "pc (calls c ! 1) = CReturned (Inl (Error ''json''))"
    by (simp add: eval_defs)
  from p(2) obtain z za where zs: "calls c = [z, za]"
    by (auto simp: length_Suc_conv numeral_2_eq_2)
  with p(5) have e: "filter (\<lambda>a. counted (pc a)) (take 0 (calls c) @ drop (Suc 0) (calls c)) = []"
    by simp
  from p(2) have l: "0 < length (calls c)" by simp
  from C10_local_failures [OF r d, THEN conjunct1, rule_format, OF l p(4)] p(3) e
  have "pendingCalls c ''id-B'' = None \<and> pendingCnt c = 0"
    by simp
  with a d r p show ?thesis by simp
qed

section \<open>Closing\<close>

text \<open>After the close case of the \<^verbatim>\<open>select\<close> the write worker is at the \<^verbatim>\<open>select\<close> again.\<close>

lemma close_keeps_looping:
  assumes "step x (WriterClose ok) c = Some c'"
  shows "writer c' = WSelect"
  using assms by (auto split: if_splits list.splits)

text \<open>
  C4. After it has consumed a close signal and written the close frame, the write worker
  should terminate and attempt no further write. The read worker fails to read, raises
  the close signal and returns; the write worker consumes the signal and writes the close
  frame with code 1000, and stands at its \<^verbatim>\<open>select\<close> again. A caller then sends a request:
  the write worker receives it and calls \<^verbatim>\<open>NextWriter\<close>, which the closed transport
  refuses; only then does the worker raise the signal itself and return.
\<close>

theorem C4_writes_after_close:
  "map_option (\<lambda>c. (reader c, writer c, closeCh c, conn c))
     (run sample [Read (Inl (Error ''EOF'')), ReaderSend, WriterClose True]
        (makeClient ''c1'' 1 [(''A'', Inr ''1'', ''id-A'')]))
   = Some (RReturned, WSelect, [],
       [(WriteWorker, WriteMessage CloseMessage [char_of (3::nat), char_of (232::nat)], True)]) \<and>
   map_option (\<lambda>c. (reader c, writer c, closeCh c, conn c))
     (run sample [Read (Inl (Error ''EOF'')), ReaderSend, WriterClose True,
                  CallStep 0, CallStep 0, CallStep 0, WriterOut (FromCall 0) NextWriterFails,
                  WriterSend]
        (makeClient ''c1'' 1 [(''A'', Inr ''1'', ''id-A'')]))
   = Some (RReturned, WReturned, [True],
       [(WriteWorker, WriteMessage CloseMessage [char_of (3::nat), char_of (232::nat)], True),
        (WriteWorker, NextWriter TextMessage, False)])"
  by (simp add: eval_defs)

section \<open>Deregistration\<close>




section \<open>Pings\<close>




end
